theory Spec2Isabelle
  imports Main "HOL-Library.Word"
begin

section \<open>Terminal Paint: the canvas and its text file format\<close>

text \<open>
  A shallow embedding of \<^verbatim>\<open>terminal_paint.c\<close>: the canvas operations
  (\<^verbatim>\<open>find_spot\<close>, \<^verbatim>\<open>paint_stuff\<close>, \<^verbatim>\<open>start_with_blank_canvas\<close>,
  \<^verbatim>\<open>move_brush\<close>) and the two file operations (\<^verbatim>\<open>save_masterpiece\<close>,
  \<^verbatim>\<open>load_masterpiece\<close>).

  Conventions of the embedding.
  \<^item> The global \<^verbatim>\<open>g_app\<close> and the global array \<^verbatim>\<open>brush_chars\<close> are the
    fields of one record that every operation takes and returns.
  \<^item> \<^verbatim>\<open>unsigned char\<close> is \<open>8 word\<close>, \<^verbatim>\<open>short\<close> is \<open>16 word\<close> read
    with \<open>sint\<close>. A C \<^verbatim>\<open>int\<close> is a HOL \<open>int\<close>; the one place where a number
    that an \<^verbatim>\<open>int\<close> cannot hold reaches the program is the \<^verbatim>\<open>%d\<close> conversion of
    \<^verbatim>\<open>fscanf\<close>, and there the wrap-around is written out (\<open>converted\<close>).
  \<^item> The canvas buffer \<^verbatim>\<open>Cell *canvas\<close> is a list of cells; a pointer into it
    (the result of \<^verbatim>\<open>find_spot\<close>) is an index, and \<^verbatim>\<open>NULL\<close> is \<open>None\<close>.
  \<^item> The calls into the terminal library (\<^verbatim>\<open>render_stuff\<close>,
    \<^verbatim>\<open>paint_entire_canvas\<close>, \<^verbatim>\<open>attrset\<close>, \<^verbatim>\<open>mvaddch\<close>) read the canvas and write
    to the screen only; they are left out of the state.
  \<^item> Whether \<^verbatim>\<open>fopen\<close> and \<^verbatim>\<open>malloc\<close> succeed is not decided by the program: the
    file operations take the outcome as an argument. There is one file, the one named by
    \<^verbatim>\<open>DEFAULT_SAVE_FILE\<close>.
  \<^item> \<^verbatim>\<open>size_t\<close> values are natural numbers; the casts from \<^verbatim>\<open>int\<close> are taken at
    dimensions that are not negative, as they are in every canvas the program creates.
\<close>

subsection \<open>Constants\<close>

definition MAX_CANVAS_WIDTH :: int where
  "MAX_CANVAS_WIDTH = 1000"

definition MAX_CANVAS_HEIGHT :: int where
  "MAX_CANVAS_HEIGHT = 1000"

definition COLOR_COUNT :: int where
  "COLOR_COUNT = 8"

subsection \<open>Types\<close>

record Cell =
  ch :: "8 word"
  color :: "16 word"

record AppState =
  canvas :: "Cell list"
  canvas_width :: int
  canvas_height :: int
  cursor_x :: int
  cursor_y :: int
  pen_down :: bool
  brush_index :: int
  current_color :: "16 word"
  running :: bool

record globals =
  g_app :: AppState
  brush_chars :: "8 word list"

text \<open>
  The canvas as \<^verbatim>\<open>canvas_fit\<close> creates it and as every operation keeps it: positive
  dimensions, capped at the two maxima, and a buffer of exactly width times height cells.
\<close>

definition canvas_inv :: "globals \<Rightarrow> bool" where
  "canvas_inv g \<longleftrightarrow>
     0 < canvas_width (g_app g) \<and> canvas_width (g_app g) \<le> MAX_CANVAS_WIDTH \<and>
     0 < canvas_height (g_app g) \<and> canvas_height (g_app g) \<le> MAX_CANVAS_HEIGHT \<and>
     length (canvas (g_app g)) = nat (canvas_width (g_app g) * canvas_height (g_app g))"

subsection \<open>Canvas operations\<close>

definition check_if_coordinates_make_sense :: "globals \<Rightarrow> int \<Rightarrow> int \<Rightarrow> bool" where
  "check_if_coordinates_make_sense g x y \<longleftrightarrow>
     x \<ge> 0 \<and> x < canvas_width (g_app g) \<and> y \<ge> 0 \<and> y < canvas_height (g_app g)"

definition find_spot :: "globals \<Rightarrow> int \<Rightarrow> int \<Rightarrow> nat option" where
  "find_spot g x y =
     (if \<not> check_if_coordinates_make_sense g x y then None
      else Some (nat (y * canvas_width (g_app g) + x)))"

text \<open>A store through a cell pointer: the buffer with the cell at that index replaced.\<close>

definition store_cell :: "nat \<Rightarrow> Cell \<Rightarrow> globals \<Rightarrow> globals" where
  "store_cell i c g = g\<lparr>g_app := (g_app g)\<lparr>canvas := (canvas (g_app g))[i := c]\<rparr>\<rparr>"

definition paint_stuff :: "globals \<Rightarrow> globals" where
  "paint_stuff g =
     (case find_spot g (cursor_x (g_app g)) (cursor_y (g_app g)) of
        None \<Rightarrow> g
      | Some cell \<Rightarrow>
          store_cell cell
            \<lparr>ch = brush_chars g ! nat (brush_index (g_app g)),
             color = current_color (g_app g)\<rparr> g)"

text \<open>The loop of \<^verbatim>\<open>start_with_blank_canvas\<close>, from index \<open>i\<close> on.\<close>

function blank_cells :: "nat \<Rightarrow> nat \<Rightarrow> 16 word \<Rightarrow> Cell list \<Rightarrow> Cell list" where
  "blank_cells i total_cells c cs =
     (if i < total_cells
      then blank_cells (i + 1) total_cells c (cs[i := \<lparr>ch = 32, color = c\<rparr>])
      else cs)"
  by pat_completeness auto
termination
  by (relation "measure (\<lambda>(i, total_cells, c, cs). total_cells - i)") auto

declare blank_cells.simps [simp del]

definition start_with_blank_canvas :: "globals \<Rightarrow> globals" where
  "start_with_blank_canvas g =
     (let total_cells = nat (canvas_width (g_app g)) * nat (canvas_height (g_app g))
      in g\<lparr>g_app := (g_app g)\<lparr>canvas :=
           blank_cells 0 total_cells (current_color (g_app g)) (canvas (g_app g))\<rparr>\<rparr>)"

definition move_brush :: "globals \<Rightarrow> int \<Rightarrow> int \<Rightarrow> globals" where
  "move_brush g dx dy =
     (let new_x = cursor_x (g_app g) + dx;
          new_y = cursor_y (g_app g) + dy;
          new_x = (if new_x < 0 then 0 else new_x);
          new_x = (if new_x \<ge> canvas_width (g_app g) then canvas_width (g_app g) - 1 else new_x);
          new_y = (if new_y < 0 then 0 else new_y);
          new_y = (if new_y \<ge> canvas_height (g_app g) then canvas_height (g_app g) - 1 else new_y)
      in if new_x \<noteq> cursor_x (g_app g) \<or> new_y \<noteq> cursor_y (g_app g)
         then (let g' = g\<lparr>g_app := (g_app g)\<lparr>cursor_x := new_x, cursor_y := new_y\<rparr>\<rparr>
               in if pen_down (g_app g') then paint_stuff g' else g')
         else g)"

subsection \<open>The C library: characters, \<^verbatim>\<open>%d\<close> printed and scanned\<close>

text \<open>
  An open stream is the list of the characters still to be read: \<^verbatim>\<open>fgetc\<close> takes the
  head, and the empty list is \<^verbatim>\<open>EOF\<close>. A file being written is the list of the
  characters written so far.
\<close>

abbreviation newline :: char where
  "newline \<equiv> CHR 0x0A"

definition isspace :: "char \<Rightarrow> bool" where
  "isspace c \<longleftrightarrow>
     c = CHR '' '' \<or> c = CHR 0x09 \<or> c = CHR 0x0A \<or> c = CHR 0x0B \<or> c = CHR 0x0C \<or> c = CHR 0x0D"

definition isdigit :: "char \<Rightarrow> bool" where
  "isdigit c \<longleftrightarrow> (48::nat) \<le> of_char c \<and> (of_char c :: nat) \<le> 57"

text \<open>The decimal digits of a natural number, as \<^verbatim>\<open>fprintf\<close> writes them for \<^verbatim>\<open>%d\<close>.\<close>

function digit_chars :: "nat \<Rightarrow> string" where
  "digit_chars n =
     (if n < 10 then [char_of (48 + n)]
      else digit_chars (n div 10) @ [char_of (48 + n mod 10)])"
  by pat_completeness auto
termination
  by (relation "measure (\<lambda>n. n)") auto

declare digit_chars.simps [simp del]

definition print_int :: "int \<Rightarrow> string" where
  "print_int i = (if i < 0 then CHR ''-'' # digit_chars (nat (- i)) else digit_chars (nat i))"

definition INT_MAX :: int where
  "INT_MAX = 2147483647"

definition INT_MIN :: int where
  "INT_MIN = - 2147483648"

definition LONG_MAX :: int where
  "LONG_MAX = 9223372036854775807"

definition LONG_MIN :: int where
  "LONG_MIN = - 9223372036854775808"

text \<open>
  The \<^verbatim>\<open>int\<close> that \<^verbatim>\<open>%d\<close> stores for a number of value \<open>v\<close>. The C standard leaves the
  behaviour undefined when the number does not fit; this is what the GNU C library does
  where \<^verbatim>\<open>long\<close> has 64 bits: the number is converted as by \<^verbatim>\<open>strtol\<close>, which gives
  \<^verbatim>\<open>LONG_MAX\<close> or \<^verbatim>\<open>LONG_MIN\<close> for a value beyond them, and the \<^verbatim>\<open>long\<close> is stored
  in the \<^verbatim>\<open>int\<close>, which keeps its low 32 bits.
\<close>

definition strtol_result :: "int \<Rightarrow> int" where
  "strtol_result v = (if v > LONG_MAX then LONG_MAX else if v < LONG_MIN then LONG_MIN else v)"

definition converted :: "int \<Rightarrow> int" where
  "converted v = sint (word_of_int (strtol_result v) :: 32 word)"

text \<open>
  The outcome of an \<^verbatim>\<open>fscanf\<close> call that has to assign all its conversions:
  \<open>Assigned v f\<close> when it did (\<open>f\<close> is the rest of the stream), \<open>Failed\<close> when the call
  returns fewer assignments (a matching failure or the end of the input).
\<close>

datatype 'a scanned = Assigned 'a string | Failed

definition digits_value :: "string \<Rightarrow> int" where
  "digits_value ds = foldl (\<lambda>v c. 10 * v + (int (of_char c) - 48)) 0 ds"

text \<open>
  The directive \<^verbatim>\<open>%d\<close>: white space is skipped (line ends included), then an optional
  sign and the longest run of decimal digits are read; no digit is a matching failure.
\<close>

definition scan_d :: "string \<Rightarrow> int scanned" where
  "scan_d f =
     (let f = dropWhile isspace f;
          (neg, f) = (case f of
                        [] \<Rightarrow> (False, f)
                      | c # r \<Rightarrow> if c = CHR ''-'' then (True, r)
                                 else if c = CHR ''+'' then (False, r) else (False, f));
          ds = takeWhile isdigit f;
          f = dropWhile isdigit f
      in if ds = [] then Failed
         else Assigned (converted (if neg then - digits_value ds else digits_value ds)) f)"

text \<open>\<^verbatim>\<open>fscanf(f, "%d %d", &a, &b) == 2\<close>: the blank in the format skips white space.\<close>

definition fscanf_d_d :: "string \<Rightarrow> (int \<times> int) scanned" where
  "fscanf_d_d f =
     (case scan_d f of
        Failed \<Rightarrow> Failed
      | Assigned a f \<Rightarrow>
          (case scan_d (dropWhile isspace f) of
             Failed \<Rightarrow> Failed
           | Assigned b f \<Rightarrow> Assigned (a, b) f))"

text \<open>\<^verbatim>\<open>fscanf(f, "%d,%d", &a, &b) == 2\<close>: the comma has to follow the first number at once.\<close>

definition fscanf_d_comma_d :: "string \<Rightarrow> (int \<times> int) scanned" where
  "fscanf_d_comma_d f =
     (case scan_d f of
        Failed \<Rightarrow> Failed
      | Assigned a f \<Rightarrow>
          (case f of
             [] \<Rightarrow> Failed
           | c # f \<Rightarrow>
               if c \<noteq> CHR '','' then Failed
               else (case scan_d f of
                       Failed \<Rightarrow> Failed
                     | Assigned b f \<Rightarrow> Assigned (a, b) f)))"

text \<open>
  \<^verbatim>\<open>sneak_peek_at_file\<close> reads a character with \<^verbatim>\<open>fgetc\<close> and, unless it is
  \<^verbatim>\<open>EOF\<close>, puts it back with \<^verbatim>\<open>ungetc\<close>. Its caller drops the character returned;
  the result here is the stream after the call.
\<close>

definition sneak_peek_at_file :: "string \<Rightarrow> string" where
  "sneak_peek_at_file f = (case f of [] \<Rightarrow> [] | c # r \<Rightarrow> c # r)"

text \<open>\<^verbatim>\<open>do { ch = fgetc(f); } while (ch != '\n' && ch != EOF);\<close>\<close>

fun skip_to_eol :: "string \<Rightarrow> string" where
  "skip_to_eol [] = []"
| "skip_to_eol (c # f) = (if c = newline then f else skip_to_eol f)"

subsection \<open>Saving\<close>

text \<open>
  The inner and the outer loop of \<^verbatim>\<open>save_masterpiece\<close>; \<open>f\<close> is what has been written
  to the file so far.
\<close>

function save_row :: "globals \<Rightarrow> int \<Rightarrow> int \<Rightarrow> string \<Rightarrow> string" where
  "save_row g y x f =
     (if x < canvas_width (g_app g) then
        (case find_spot g x y of
           None \<Rightarrow> save_row g y (x + 1) f
         | Some cell \<Rightarrow>
             (let c = canvas (g_app g) ! cell;
                  f = f @ print_int (sint (color c)) @ '','' @ print_int (uint (ch c));
                  f = (if x < canvas_width (g_app g) - 1 then f @ '' '' else f)
              in save_row g y (x + 1) f))
      else f)"
  by pat_completeness auto
termination
  by (relation "measure (\<lambda>(g, y, x, f). nat (canvas_width (g_app g) - x))") auto

declare save_row.simps [simp del]

function save_rows :: "globals \<Rightarrow> int \<Rightarrow> string \<Rightarrow> string" where
  "save_rows g y f =
     (if y < canvas_height (g_app g)
      then save_rows g (y + 1) (save_row g y 0 f @ [newline])
      else f)"
  by pat_completeness auto
termination
  by (relation "measure (\<lambda>(g, y, f). nat (canvas_height (g_app g) - y))") auto

declare save_rows.simps [simp del]

text \<open>
  \<open>fopen_ok\<close> says whether the file could be opened for writing; \<open>file\<close> is the content
  of the file before the call (\<open>None\<close>: there is none), the result its content after.
\<close>

definition save_masterpiece :: "bool \<Rightarrow> globals \<Rightarrow> string option \<Rightarrow> string option" where
  "save_masterpiece fopen_ok g file =
     (if \<not> fopen_ok then file
      else Some (save_rows g 0
             (print_int (canvas_width (g_app g)) @ '' '' @
              print_int (canvas_height (g_app g)) @ [newline])))"

subsection \<open>Loading\<close>

text \<open>
  What a C function call does: it returns, or its behaviour is undefined.
\<close>

datatype 'a run = Done 'a | UB

text \<open>
  The temporary grid comes from \<^verbatim>\<open>malloc\<close>: its cells hold nothing until they are
  written (\<open>None\<close>). Reading a cell that was never written, or one outside the block, is
  undefined.
\<close>

definition load_cell :: "Cell option list \<Rightarrow> nat \<Rightarrow> Cell option" where
  "load_cell temp_canvas i = (if i < length temp_canvas then temp_canvas ! i else None)"

text \<open>The reading loops, the inner one from column \<open>x\<close> and the outer one from row \<open>y\<close>.
  A failed \<^verbatim>\<open>fscanf\<close> clears \<^verbatim>\<open>read_success\<close> and leaves both loops; what is still
  read from the stream on that path is read from a stream that is closed right after.\<close>

function read_row ::
  "int \<Rightarrow> int \<Rightarrow> int \<Rightarrow> string \<Rightarrow> Cell option list \<Rightarrow> (Cell option list) scanned" where
  "read_row file_width y x f temp_canvas =
     (if x < file_width then
        (case fscanf_d_comma_d f of
           Failed \<Rightarrow> Failed
         | Assigned (color_val, ascii_val) f \<Rightarrow>
             read_row file_width y (x + 1) (sneak_peek_at_file f)
               (temp_canvas[nat (y * file_width + x) := Some
                  \<lparr>ch = (if ascii_val \<ge> 0 \<and> ascii_val \<le> 255 then word_of_int ascii_val else 32),
                   color = (if color_val \<ge> 0 \<and> color_val < COLOR_COUNT
                            then word_of_int color_val else 7)\<rparr>]))
      else Assigned temp_canvas f)"
  by pat_completeness auto
termination
  by (relation "measure (\<lambda>(file_width, y, x, f, temp_canvas). nat (file_width - x))") auto

declare read_row.simps [simp del]

function read_rows ::
  "int \<Rightarrow> int \<Rightarrow> int \<Rightarrow> string \<Rightarrow> Cell option list \<Rightarrow> (Cell option list) scanned" where
  "read_rows file_width file_height y f temp_canvas =
     (if y < file_height then
        (case read_row file_width y 0 f temp_canvas of
           Failed \<Rightarrow> Failed
         | Assigned temp_canvas f \<Rightarrow>
             read_rows file_width file_height (y + 1) (skip_to_eol f) temp_canvas)
      else Assigned temp_canvas f)"
  by pat_completeness auto
termination
  by (relation "measure (\<lambda>(file_width, file_height, y, f, temp_canvas). nat (file_height - y))")
    auto

declare read_rows.simps [simp del]

text \<open>The copying loops.\<close>

function copy_row :: "int \<Rightarrow> int \<Rightarrow> int \<Rightarrow> int \<Rightarrow> Cell option list \<Rightarrow> globals \<Rightarrow> globals run" where
  "copy_row file_width copy_width y x temp_canvas g =
     (if x < copy_width then
        (case find_spot g x y of
           None \<Rightarrow> copy_row file_width copy_width y (x + 1) temp_canvas g
         | Some dst \<Rightarrow>
             (case load_cell temp_canvas (nat (y * file_width + x)) of
                None \<Rightarrow> UB
              | Some src \<Rightarrow>
                  copy_row file_width copy_width y (x + 1) temp_canvas (store_cell dst src g)))
      else Done g)"
  by pat_completeness auto
termination
  by (relation "measure (\<lambda>(file_width, copy_width, y, x, temp_canvas, g). nat (copy_width - x))")
    auto

declare copy_row.simps [simp del]

function copy_rows ::
  "int \<Rightarrow> int \<Rightarrow> int \<Rightarrow> int \<Rightarrow> Cell option list \<Rightarrow> globals \<Rightarrow> globals run" where
  "copy_rows file_width copy_width copy_height y temp_canvas g =
     (if y < copy_height then
        (case copy_row file_width copy_width y 0 temp_canvas g of
           UB \<Rightarrow> UB
         | Done g \<Rightarrow> copy_rows file_width copy_width copy_height (y + 1) temp_canvas g)
      else Done g)"
  by pat_completeness auto
termination
  by (relation
        "measure (\<lambda>(file_width, copy_width, copy_height, y, temp_canvas, g). nat (copy_height - y))")
    auto

declare copy_rows.simps [simp del]

text \<open>
  \<open>file\<close> is the content of the file (\<open>None\<close>: it cannot be opened), \<open>malloc_ok\<close> says
  whether the temporary grid could be allocated.
\<close>

definition load_masterpiece :: "string option \<Rightarrow> bool \<Rightarrow> globals \<Rightarrow> globals run" where
  "load_masterpiece file malloc_ok g =
     (case file of
        None \<Rightarrow> Done g
      | Some f \<Rightarrow>
          (case fscanf_d_d f of
             Failed \<Rightarrow> Done g
           | Assigned (file_width, file_height) f \<Rightarrow>
               if file_width \<le> 0 \<or> file_height \<le> 0 \<or>
                  file_width > MAX_CANVAS_WIDTH \<or> file_height > MAX_CANVAS_HEIGHT
               then Done g
               else if \<not> malloc_ok then Done g
               else
                 (let temp_canvas = replicate (nat file_width * nat file_height) None;
                      f = skip_to_eol f
                  in case read_rows file_width file_height 0 f temp_canvas of
                       Failed \<Rightarrow> Done g
                     | Assigned temp_canvas f \<Rightarrow>
                         (let copy_width = (if file_width < canvas_width (g_app g)
                                            then file_width else canvas_width (g_app g));
                              copy_height = (if file_height < canvas_height (g_app g)
                                             then file_height else canvas_height (g_app g))
                          in copy_rows file_width copy_width copy_height 0 temp_canvas g))))"

subsection \<open>The file format and the overlay, as the specification describes them\<close>

text \<open>
  The definitions of this subsection are not translations of code. They say what a file
  looks like and what a load is to do to the canvas, and the properties below compare the
  code with them.
\<close>

text \<open>A token \<^verbatim>\<open><color>,<ascii>\<close>, and tokens separated by single spaces.\<close>

definition token_text :: "int \<times> int \<Rightarrow> string" where
  "token_text t = print_int (fst t) @ '','' @ print_int (snd t)"

fun join_tokens :: "string list \<Rightarrow> string" where
  "join_tokens [] = []"
| "join_tokens [t] = t"
| "join_tokens (t # u # ts) = t @ '' '' @ join_tokens (u # ts)"

text \<open>The cell at column \<open>x\<close> of row \<open>y\<close>, and the two numbers a cell is saved as.\<close>

definition cell_at :: "globals \<Rightarrow> nat \<Rightarrow> nat \<Rightarrow> Cell" where
  "cell_at g x y = canvas (g_app g) ! (y * nat (canvas_width (g_app g)) + x)"

definition cell_token :: "Cell \<Rightarrow> int \<times> int" where
  "cell_token c = (sint (color c), uint (ch c))"

text \<open>
  The text of a canvas: the line \<^verbatim>\<open><width> <height>\<close>, then one line for each row with
  the tokens of its cells from left to right.
\<close>

definition serialize_row :: "globals \<Rightarrow> nat \<Rightarrow> string" where
  "serialize_row g y =
     join_tokens (map (\<lambda>x. token_text (cell_token (cell_at g x y))) [0..<nat (canvas_width (g_app g))])"

definition serialize :: "globals \<Rightarrow> string" where
  "serialize g =
     print_int (canvas_width (g_app g)) @ '' '' @ print_int (canvas_height (g_app g)) @ [newline] @
     concat (map (\<lambda>y. serialize_row g y @ [newline]) [0..<nat (canvas_height (g_app g))])"

text \<open>
  The cell a token stands for: a colour outside 0..7 becomes 7, a character code outside
  0..255 becomes 32.
\<close>

definition coerce_token :: "int \<times> int \<Rightarrow> Cell" where
  "coerce_token t =
     \<lparr>ch = (if 0 \<le> snd t \<and> snd t \<le> 255 then word_of_int (snd t) else 32),
      color = (if 0 \<le> fst t \<and> fst t \<le> 7 then word_of_int (fst t) else 7)\<rparr>"

text \<open>Numbers that a C \<^verbatim>\<open>int\<close> holds.\<close>

definition fits_int :: "int \<Rightarrow> bool" where
  "fits_int v \<longleftrightarrow> INT_MIN \<le> v \<and> v \<le> INT_MAX"

definition fits_token :: "int \<times> int \<Rightarrow> bool" where
  "fits_token t \<longleftrightarrow> fits_int (fst t) \<and> fits_int (snd t)"

text \<open>A stream that does not go on with a digit: a number printed before it ends there.\<close>

definition no_digit_ahead :: "string \<Rightarrow> bool" where
  "no_digit_ahead s \<longleftrightarrow> (case s of [] \<Rightarrow> True | c # _ \<Rightarrow> \<not> isdigit c)"

text \<open>
  A line of a file is given by its first tokens and by whatever follows them on the line.
  A good line for width \<open>fw\<close> has \<open>fw\<close> tokens, and what follows them neither goes on
  with a digit nor holds a line end.
\<close>

definition line_text :: "(int \<times> int) list \<times> string \<Rightarrow> string" where
  "line_text l = join_tokens (map token_text (fst l)) @ snd l @ [newline]"

definition good_line :: "nat \<Rightarrow> (int \<times> int) list \<times> string \<Rightarrow> bool" where
  "good_line fw l \<longleftrightarrow>
     length (fst l) = fw \<and> (\<forall>t\<in>set (fst l). fits_token t) \<and>
     newline \<notin> set (snd l) \<and> no_digit_ahead (snd l @ [newline])"

definition grid_text :: "nat \<Rightarrow> nat \<Rightarrow> ((int \<times> int) list \<times> string) list \<Rightarrow> string" where
  "grid_text fw fh ls =
     print_int (int fw) @ '' '' @ print_int (int fh) @ [newline] @ concat (map line_text ls)"

text \<open>
  Numbers in a text. A number is an optional sign and at least one decimal digit, and
  \<open>number_value\<close> is the integer that it writes. \<open>starts_number s\<close> says that \<open>s\<close> begins
  with a number, and \<open>after_number s\<close> is what follows the longest number that \<open>s\<close> begins
  with.
\<close>

definition number_text :: "string \<Rightarrow> bool" where
  "number_text n \<longleftrightarrow>
     (case n of
        [] \<Rightarrow> False
      | c # ds \<Rightarrow> if c = CHR ''-'' \<or> c = CHR ''+'' then ds \<noteq> [] \<and> list_all isdigit ds
                  else list_all isdigit n)"

definition number_value :: "string \<Rightarrow> int" where
  "number_value n =
     (case n of
        [] \<Rightarrow> 0
      | c # ds \<Rightarrow> if c = CHR ''-'' then - digits_value ds
                  else if c = CHR ''+'' then digits_value ds else digits_value n)"

definition starts_number :: "string \<Rightarrow> bool" where
  "starts_number s \<longleftrightarrow>
     (case s of
        [] \<Rightarrow> False
      | c # r \<Rightarrow> isdigit c \<or>
                 ((c = CHR ''-'' \<or> c = CHR ''+'') \<and> (case r of [] \<Rightarrow> False | d # _ \<Rightarrow> isdigit d)))"

definition after_number :: "string \<Rightarrow> string" where
  "after_number s =
     (case s of
        [] \<Rightarrow> []
      | c # r \<Rightarrow> dropWhile isdigit (if c = CHR ''-'' \<or> c = CHR ''+'' then r else s))"

text \<open>
  A text that begins with a header: two numbers, with white space allowed before each of
  them (a line end is white space). A text that begins with a token: a number, a comma right
  after it, and a number, with white space allowed before each number.
\<close>

definition starts_header :: "string \<Rightarrow> bool" where
  "starts_header s \<longleftrightarrow>
     (let s = dropWhile isspace s
      in starts_number s \<and> starts_number (dropWhile isspace (after_number s)))"

definition starts_token :: "string \<Rightarrow> bool" where
  "starts_token s \<longleftrightarrow>
     (let s = dropWhile isspace s
      in starts_number s \<and>
         (case after_number s of
            [] \<Rightarrow> False
          | c # r \<Rightarrow> c = CHR '','' \<and> starts_number (dropWhile isspace r)))"

text \<open>
  The tokens of a grid in the order in which they are taken from a text: \<open>read_tokens n\<close>
  takes \<open>n\<close> tokens one after the other with \<open>fscanf_d_comma_d\<close>, and \<open>read_lines fw k\<close>
  takes \<open>k\<close> times \<open>fw\<close> tokens, dropping the rest of the line after each \<open>fw\<close> of them.
  \<open>token_stream fw y x f\<close> is what is left of \<open>f\<close> when \<open>y\<close> rows and \<open>x\<close> further
  tokens have been taken: the text in which the token for column \<open>x\<close> of row \<open>y\<close> is
  looked for. The reading loops of the code are compared with these below.
\<close>

fun read_tokens :: "nat \<Rightarrow> string \<Rightarrow> ((int \<times> int) list \<times> string) option" where
  "read_tokens 0 f = Some ([], f)"
| "read_tokens (Suc n) f =
     (case fscanf_d_comma_d f of
        Failed \<Rightarrow> None
      | Assigned t f \<Rightarrow>
          (case read_tokens n f of
             None \<Rightarrow> None
           | Some (ts, f) \<Rightarrow> Some (t # ts, f)))"

fun read_lines :: "nat \<Rightarrow> nat \<Rightarrow> string \<Rightarrow> ((int \<times> int) list \<times> string) option" where
  "read_lines fw 0 f = Some ([], f)"
| "read_lines fw (Suc k) f =
     (case read_tokens fw f of
        None \<Rightarrow> None
      | Some (ts, f) \<Rightarrow>
          (case read_lines fw k (skip_to_eol f) of
             None \<Rightarrow> None
           | Some (us, f) \<Rightarrow> Some (ts @ us, f)))"

definition token_stream :: "nat \<Rightarrow> nat \<Rightarrow> nat \<Rightarrow> string \<Rightarrow> string option" where
  "token_stream fw y x f =
     (case read_lines fw y f of
        None \<Rightarrow> None
      | Some (_, f) \<Rightarrow> (case read_tokens x f of None \<Rightarrow> None | Some (_, f) \<Rightarrow> Some f))"

text \<open>
  The overlay of a grid of \<open>fw\<close> by \<open>fh\<close> cells on the canvas: the cells of the region
  \<open>min fw width\<close> by \<open>min fh height\<close> in the top left corner come from the grid, all
  others stay.
\<close>

definition with_canvas :: "globals \<Rightarrow> Cell list \<Rightarrow> globals" where
  "with_canvas g cs = g\<lparr>g_app := (g_app g)\<lparr>canvas := cs\<rparr>\<rparr>"

definition overlay :: "nat \<Rightarrow> nat \<Rightarrow> Cell list \<Rightarrow> globals \<Rightarrow> globals" where
  "overlay fw fh cells g =
     (let w = nat (canvas_width (g_app g)); h = nat (canvas_height (g_app g))
      in with_canvas g
           (map (\<lambda>i. if i mod w < min fw w \<and> i div w < min fh h
                      then cells ! (i div w * fw + i mod w) else canvas (g_app g) ! i)
              [0..<length (canvas (g_app g))]))"

subsection \<open>Example states\<close>

text \<open>A 3 by 2 canvas with the cursor in its bottom left corner and the pen down.\<close>

definition edge_canvas :: globals where
  "edge_canvas =
     \<lparr>g_app = \<lparr>canvas = replicate 6 \<lparr>ch = 32, color = 7\<rparr>,
        canvas_width = 3, canvas_height = 2, cursor_x = 0, cursor_y = 1, pen_down = True,
        brush_index = 0, current_color = 1, running = True\<rparr>,
      brush_chars = [35, 42, 64, 37, 43, 111, 120, 46, 126, 38]\<rparr>"

text \<open>
  A blank 3 by 2 canvas, and the same with \<^verbatim>\<open>#\<close> in colour 1 painted at (0,0) and
  \<^verbatim>\<open>*\<close> in colour 3 painted at (2,1).
\<close>

definition blank_3x2 :: globals where
  "blank_3x2 =
     \<lparr>g_app = \<lparr>canvas = replicate 6 \<lparr>ch = 32, color = 7\<rparr>,
        canvas_width = 3, canvas_height = 2, cursor_x = 0, cursor_y = 0, pen_down = False,
        brush_index = 0, current_color = 1, running = True\<rparr>,
      brush_chars = [35, 42, 64, 37, 43, 111, 120, 46, 126, 38]\<rparr>"

definition painted_3x2 :: globals where
  "painted_3x2 =
     paint_stuff ((paint_stuff blank_3x2)
       \<lparr>g_app := (g_app (paint_stuff blank_3x2))
          \<lparr>cursor_x := 2, cursor_y := 1, brush_index := 1, current_color := 3\<rparr>\<rparr>)"

section \<open>Properties\<close>

lemma sneak_peek_at_file_id [simp]: "sneak_peek_at_file f = f"
  by (cases f) (simp_all add: sneak_peek_at_file_def)

subsection \<open>Cells and the buffer\<close>

lemma find_spot_in_buffer:
  assumes "canvas_inv g" and "find_spot g x y = Some i"
  shows "i < length (canvas (g_app g))"
proof -
  let ?w = "canvas_width (g_app g)" and ?h = "canvas_height (g_app g)"
  from assms(2) have b: "0 \<le> x" "x < ?w" "0 \<le> y" "y < ?h" and i: "i = nat (y * ?w + x)"
    by (auto simp: find_spot_def check_if_coordinates_make_sense_def split: if_splits)
  have "y * ?w + x < (y + 1) * ?w" using b by (simp add: algebra_simps)
  also have "\<dots> \<le> ?h * ?w" using b by (intro mult_right_mono) auto
  finally have "y * ?w + x < ?w * ?h" by (simp add: mult.commute)
  moreover have "0 \<le> y * ?w + x" using b by simp
  ultimately show ?thesis using assms(1) i by (simp add: canvas_inv_def)
qed

text \<open>
  C6. Outside the canvas \<open>find_spot\<close> gives no cell, and \<open>paint_stuff\<close> with the cursor
  there returns the state as it was: no cell of the buffer is read or written.
\<close>

theorem out_of_range_is_no_op:
  assumes "x < 0 \<or> x \<ge> canvas_width (g_app g) \<or> y < 0 \<or> y \<ge> canvas_height (g_app g)"
  shows "find_spot g x y = None \<and>
         (cursor_x (g_app g) = x \<and> cursor_y (g_app g) = y \<longrightarrow> paint_stuff g = g)"
  using assms by (auto simp: paint_stuff_def find_spot_def check_if_coordinates_make_sense_def)

theorem out_of_range_is_no_op_witness:
  "find_spot edge_canvas 3 1 = None \<and>
   paint_stuff (edge_canvas\<lparr>g_app := (g_app edge_canvas)\<lparr>cursor_x := 3\<rparr>\<rparr>) =
     edge_canvas\<lparr>g_app := (g_app edge_canvas)\<lparr>cursor_x := 3\<rparr>\<rparr>"
  using out_of_range_is_no_op [of 3 edge_canvas 1]
    out_of_range_is_no_op [of 3 "edge_canvas\<lparr>g_app := (g_app edge_canvas)\<lparr>cursor_x := 3\<rparr>\<rparr>" 1]
  by (simp add: edge_canvas_def)

subsection \<open>Clearing\<close>

lemma blank_cells_eq:
  "i \<le> total_cells \<Longrightarrow> length cs = total_cells \<Longrightarrow>
   blank_cells i total_cells c cs = take i cs @ replicate (total_cells - i) \<lparr>ch = 32, color = c\<rparr>"
proof (induction i total_cells c cs rule: blank_cells.induct)
  case (1 i total_cells c cs)
  show ?case
  proof (cases "i < total_cells")
    case True
    let ?b = "\<lparr>ch = 32, color = c\<rparr>"
    have "blank_cells i total_cells c cs = blank_cells (i + 1) total_cells c (cs[i := ?b])"
      using True by (subst blank_cells.simps) simp
    also have "\<dots> = take (i + 1) (cs[i := ?b]) @ replicate (total_cells - (i + 1)) ?b"
      using True "1.prems" by (intro "1.IH") auto
    also have "take (i + 1) (cs[i := ?b]) = take i cs @ [?b]"
      using True "1.prems" by (simp add: take_Suc_conv_app_nth)
    also have "(take i cs @ [?b]) @ replicate (total_cells - (i + 1)) ?b
                 = take i cs @ replicate (total_cells - i) ?b"
      using True by (simp add: replicate_Suc [symmetric] Suc_diff_Suc del: replicate_Suc)
    finally show ?thesis .
  next
    case False
    with "1.prems" show ?thesis by (subst blank_cells.simps) simp
  qed
qed

text \<open>
  C8. \<open>start_with_blank_canvas\<close> with fill colour \<open>c\<close> leaves a buffer of width times height
  cells that are all a space in colour \<open>c\<close>; nothing else of the state changes.
\<close>

theorem clear_sets_every_cell:
  assumes "canvas_inv g" and "current_color (g_app g) = c"
  shows "start_with_blank_canvas g =
           g\<lparr>g_app := (g_app g)\<lparr>canvas :=
                replicate (nat (canvas_width (g_app g) * canvas_height (g_app g)))
                  \<lparr>ch = 32, color = c\<rparr>\<rparr>\<rparr>"
proof -
  let ?n = "nat (canvas_width (g_app g)) * nat (canvas_height (g_app g))"
  have n: "?n = nat (canvas_width (g_app g) * canvas_height (g_app g))"
    using assms(1) by (simp add: canvas_inv_def nat_mult_distrib)
  have "length (canvas (g_app g)) = ?n" using assms(1) n by (simp add: canvas_inv_def)
  then have "blank_cells 0 ?n c (canvas (g_app g)) = replicate ?n \<lparr>ch = 32, color = c\<rparr>"
    by (simp add: blank_cells_eq)
  then show ?thesis using assms(2) n by (simp add: start_with_blank_canvas_def Let_def)
qed

theorem clear_sets_every_cell_witness:
  "canvas_inv edge_canvas \<and>
   canvas (g_app (start_with_blank_canvas edge_canvas)) = replicate 6 \<lparr>ch = 32, color = 1\<rparr>"
  using clear_sets_every_cell [of edge_canvas 1]
  by (simp add: edge_canvas_def canvas_inv_def MAX_CANVAS_WIDTH_def MAX_CANVAS_HEIGHT_def)

subsection \<open>Moving the cursor\<close>

text \<open>
  C9. When the moved position, clamped to the canvas, is the position the cursor is at,
  \<open>move_brush\<close> returns the state as it was, whether the pen is down or not: the cursor
  stays and no cell is painted.
\<close>

theorem move_against_edge_changes_nothing:
  assumes "canvas_inv g"
    and "min (canvas_width (g_app g) - 1) (max 0 (cursor_x (g_app g) + dx)) = cursor_x (g_app g)"
    and "min (canvas_height (g_app g) - 1) (max 0 (cursor_y (g_app g) + dy)) = cursor_y (g_app g)"
  shows "move_brush g dx dy = g"
  using assms by (auto simp: move_brush_def canvas_inv_def Let_def min_def max_def split: if_splits)

theorem move_against_edge_changes_nothing_witness:
  "canvas_inv edge_canvas \<and> pen_down (g_app edge_canvas) \<and>
   move_brush edge_canvas (- 1) 1 = edge_canvas"
  using move_against_edge_changes_nothing [of edge_canvas "- 1" 1]
  by (simp add: edge_canvas_def canvas_inv_def MAX_CANVAS_WIDTH_def MAX_CANVAS_HEIGHT_def)

subsection \<open>Numbers printed and scanned\<close>

lemma isdigit_not_special:
  "isdigit c \<Longrightarrow> c \<noteq> CHR ''-'' \<and> c \<noteq> CHR ''+'' \<and> c \<noteq> CHR '','' \<and> \<not> isspace c"
  by (auto simp: isdigit_def isspace_def)

lemma isdigit_digit_char: "d < 10 \<Longrightarrow> isdigit (char_of (48 + d :: nat))"
  by (simp add: isdigit_def)

lemma digit_chars_digits: "c \<in> set (digit_chars n) \<Longrightarrow> isdigit c"
proof (induction n arbitrary: c rule: digit_chars.induct)
  case (1 n)
  show ?case
  proof (cases "n < 10")
    case True
    with "1.prems" show ?thesis
      by (subst (asm) digit_chars.simps) (simp add: isdigit_digit_char)
  next
    case False
    from "1.prems" have "c \<in> set (digit_chars (n div 10)) \<or> c = char_of (48 + n mod 10)"
      using False by (subst (asm) digit_chars.simps) auto
    then show ?thesis
      using "1.IH" [OF False] by (auto simp: isdigit_digit_char)
  qed
qed

lemma digit_chars_not_Nil: "digit_chars n \<noteq> []"
  by (subst digit_chars.simps) simp

lemma digits_value_snoc:
  "digits_value (ds @ [c]) = 10 * digits_value ds + (int (of_char c) - 48)"
  by (simp add: digits_value_def)

lemma digits_value_digit_chars: "digits_value (digit_chars n) = int n"
proof (induction n rule: digit_chars.induct)
  case (1 n)
  show ?case
  proof (cases "n < 10")
    case True
    then show ?thesis
      by (subst digit_chars.simps) (simp add: digits_value_def)
  next
    case False
    have "digits_value (digit_chars n) =
            10 * digits_value (digit_chars (n div 10)) +
              (int (of_char (char_of (48 + n mod 10))) - 48)"
      using False by (subst digit_chars.simps) (simp add: digits_value_snoc)
    also have "\<dots> = 10 * int (n div 10) + int (n mod 10)"
      using "1.IH" [OF False] by simp
    also have "\<dots> = int n"
      by presburger
    finally show ?thesis .
  qed
qed

lemma takeWhile_digits:
  assumes "\<forall>c\<in>set ds. isdigit c" and "no_digit_ahead s"
  shows "takeWhile isdigit (ds @ s) = ds" and "dropWhile isdigit (ds @ s) = s"
  using assms by (auto simp: no_digit_ahead_def takeWhile_append dropWhile_append
      takeWhile_eq_Nil_iff dropWhile_eq_self_iff split: list.splits)

lemma dropWhile_isspace_print_int: "dropWhile isspace (print_int i @ s) = print_int i @ s"
proof -
  obtain c cs where c: "digit_chars (nat \<bar>i\<bar>) = c # cs"
    using digit_chars_not_Nil by (cases "digit_chars (nat \<bar>i\<bar>)") auto
  then have "isdigit c"
    using digit_chars_digits [of c "nat \<bar>i\<bar>"] by simp
  then have "\<not> isspace c" using isdigit_not_special by blast
  then show ?thesis using c
    by (cases "i < 0") (simp_all add: print_int_def isspace_def abs_if)
qed

lemma converted_fits: "fits_int v \<Longrightarrow> converted v = v"
proof -
  assume "fits_int v"
  then have v: "- 2147483648 \<le> v" "v \<le> 2147483647"
    by (simp_all add: fits_int_def INT_MIN_def INT_MAX_def)
  then have "strtol_result v = v"
    by (simp add: strtol_result_def LONG_MAX_def LONG_MIN_def)
  moreover have "sint (word_of_int v :: 32 word) = v"
  proof -
    have "sint (word_of_int v :: 32 word) = (v + 2147483648) mod 4294967296 - 2147483648"
      by (simp add: int_word_sint)
    also have "(v + 2147483648) mod 4294967296 = v + 2147483648"
      using v by (intro mod_pos_pos_trivial) simp_all
    finally show ?thesis by simp
  qed
  ultimately show ?thesis by (simp add: converted_def)
qed

lemma scan_d_print_int:
  assumes "fits_int i" and "no_digit_ahead s"
  shows "scan_d (print_int i @ s) = Assigned i s"
proof -
  let ?ds = "digit_chars (nat \<bar>i\<bar>)"
  have dig: "\<forall>c\<in>set ?ds. isdigit c" using digit_chars_digits by blast
  obtain c cs where c: "?ds = c # cs"
    using digit_chars_not_Nil by (cases ?ds) auto
  then have "isdigit c" using dig by simp
  then have c_ns: "c \<noteq> CHR ''-''" "c \<noteq> CHR ''+''" using isdigit_not_special by blast+
  have tw: "takeWhile isdigit (?ds @ s) = ?ds" "dropWhile isdigit (?ds @ s) = s"
    using takeWhile_digits [OF dig assms(2)] by simp_all
  have val: "digits_value ?ds = \<bar>i\<bar>" by (simp add: digits_value_digit_chars)
  show ?thesis
  proof (cases "i < 0")
    case True
    then have p: "print_int i @ s = CHR ''-'' # ?ds @ s"
      by (simp add: print_int_def abs_if)
    show ?thesis
      unfolding scan_d_def dropWhile_isspace_print_int
      unfolding p using True converted_fits [OF assms(1)] tw val
        digit_chars_not_Nil [of "nat \<bar>i\<bar>"]
      by (simp add: Let_def)
  next
    case False
    then have p: "print_int i @ s = ?ds @ s"
      by (simp add: print_int_def abs_if)
    have sign: "(case ?ds @ s of
                   [] \<Rightarrow> (False, ?ds @ s)
                 | c # r \<Rightarrow> if c = CHR ''-'' then (True, r)
                            else if c = CHR ''+'' then (False, r) else (False, ?ds @ s))
                = (False, ?ds @ s)"
      using c c_ns by simp
    show ?thesis
      unfolding scan_d_def dropWhile_isspace_print_int
      unfolding p Let_def sign using False converted_fits [OF assms(1)] tw val
        digit_chars_not_Nil [of "nat \<bar>i\<bar>"]
      by simp
  qed
qed

lemma scan_d_skips_space:
  "\<forall>c\<in>set ws. isspace c \<Longrightarrow> scan_d (ws @ s) = scan_d s"
proof -
  assume "\<forall>c\<in>set ws. isspace c"
  then have "dropWhile isspace (ws @ s) = dropWhile isspace s"
    by (induction ws) auto
  then show ?thesis by (simp add: scan_d_def)
qed

lemma no_digit_ahead_comma: "no_digit_ahead (CHR '','' # s)"
  by (simp add: no_digit_ahead_def isdigit_def)

lemma no_digit_ahead_space: "no_digit_ahead (CHR '' '' # s)"
  by (simp add: no_digit_ahead_def isdigit_def)

lemma no_digit_ahead_newline: "no_digit_ahead (newline # s)"
  by (simp add: no_digit_ahead_def isdigit_def)

lemma fits_int_small: "\<bar>i\<bar> \<le> 65536 \<Longrightarrow> fits_int i"
  unfolding fits_int_def INT_MIN_def INT_MAX_def by linarith

lemma fscanf_d_comma_d_token:
  assumes "fits_int (fst t)" "fits_int (snd t)" "no_digit_ahead s" "\<forall>c\<in>set ws. isspace c"
  shows "fscanf_d_comma_d (ws @ token_text t @ s) = Assigned t s"
proof -
  have "scan_d (ws @ token_text t @ s) = Assigned (fst t) (CHR '','' # print_int (snd t) @ s)"
    using scan_d_print_int [OF assms(1) no_digit_ahead_comma]
    by (simp add: token_text_def scan_d_skips_space [OF assms(4)])
  then show ?thesis
    using scan_d_print_int [OF assms(2,3)] by (simp add: fscanf_d_comma_d_def)
qed

lemma fscanf_d_d_header:
  assumes "fits_int a" "fits_int b"
  shows "fscanf_d_d (print_int a @ '' '' @ print_int b @ newline # rest) =
           Assigned (a, b) (newline # rest)"
proof -
  have 1: "scan_d (print_int a @ CHR '' '' # print_int b @ newline # rest) =
             Assigned a (CHR '' '' # print_int b @ newline # rest)"
    using assms(1) by (intro scan_d_print_int no_digit_ahead_space)
  have 2: "dropWhile isspace (CHR '' '' # print_int b @ newline # rest) =
             print_int b @ newline # rest"
    by (simp add: isspace_def dropWhile_isspace_print_int)
  have 3: "scan_d (print_int b @ newline # rest) = Assigned b (newline # rest)"
    using assms(2) by (intro scan_d_print_int no_digit_ahead_newline)
  have "fscanf_d_d (print_int a @ CHR '' '' # print_int b @ newline # rest) =
           Assigned (a, b) (newline # rest)"
    unfolding fscanf_d_d_def 1 scanned.case 2 3 by simp
  then show ?thesis by simp
qed

subsection \<open>Numbers in any text\<close>

text \<open>
  What \<^verbatim>\<open>fscanf\<close> does, said of the text alone: it fails exactly on the texts that do not
  begin with a header or with a token, and on a text that does it assigns the values of the
  two numbers, converted, and leaves what follows the second number.
\<close>

lemma scan_d_cases:
  "(\<forall>v r. scan_d f = Assigned v r \<longrightarrow> r = after_number (dropWhile isspace f)) \<and>
   (scan_d f = Failed \<longleftrightarrow> \<not> starts_number (dropWhile isspace f))"
proof -
  define s where "s = dropWhile isspace f"
  show ?thesis
  proof (cases s)
    case Nil
    then show ?thesis
      unfolding scan_d_def s_def [symmetric] by (simp add: starts_number_def)
  next
    case (Cons c r)
    show ?thesis
    proof (cases "c = CHR ''-'' \<or> c = CHR ''+''")
      case True
      then have nd: "\<not> isdigit c" by (auto simp: isdigit_def)
      show ?thesis
      proof (cases r)
        case Nil
        then show ?thesis
          unfolding scan_d_def s_def [symmetric] Cons using True nd
          by (auto simp: starts_number_def)
      next
        case (Cons d r')
        then show ?thesis
          unfolding scan_d_def s_def [symmetric] \<open>s = c # r\<close> using True nd
          by (auto simp: starts_number_def after_number_def Let_def)
      qed
    next
      case False
      then show ?thesis
        unfolding scan_d_def s_def [symmetric] Cons
        by (auto simp: starts_number_def after_number_def Let_def)
    qed
  qed
qed

lemma scan_d_Failed_iff: "scan_d f = Failed \<longleftrightarrow> \<not> starts_number (dropWhile isspace f)"
  using scan_d_cases [of f] by blast

lemma scan_d_rest: "scan_d f = Assigned v r \<Longrightarrow> r = after_number (dropWhile isspace f)"
  using scan_d_cases [of f] by blast

lemma fscanf_d_d_Failed_iff: "fscanf_d_d f = Failed \<longleftrightarrow> \<not> starts_header f"
proof (cases "scan_d f")
  case Failed
  then show ?thesis
    using scan_d_Failed_iff [of f] by (simp add: fscanf_d_d_def starts_header_def Let_def)
next
  case (Assigned a r)
  have r: "r = after_number (dropWhile isspace f)" using scan_d_rest [OF Assigned] .
  have s1: "starts_number (dropWhile isspace f)"
    using scan_d_Failed_iff [of f] Assigned by simp
  have "fscanf_d_d f = Failed \<longleftrightarrow> scan_d (dropWhile isspace r) = Failed"
    by (simp add: fscanf_d_d_def Assigned split: scanned.splits)
  also have "\<dots> \<longleftrightarrow> \<not> starts_number (dropWhile isspace r)"
    using scan_d_Failed_iff [of "dropWhile isspace r"] by (simp add: dropWhile_idem)
  finally show ?thesis using s1 r by (simp add: starts_header_def Let_def)
qed

lemma fscanf_d_comma_d_Failed_iff: "fscanf_d_comma_d f = Failed \<longleftrightarrow> \<not> starts_token f"
proof (cases "scan_d f")
  case Failed
  then show ?thesis
    using scan_d_Failed_iff [of f] by (simp add: fscanf_d_comma_d_def starts_token_def Let_def)
next
  case (Assigned a r)
  have r: "r = after_number (dropWhile isspace f)" using scan_d_rest [OF Assigned] .
  have s1: "starts_number (dropWhile isspace f)"
    using scan_d_Failed_iff [of f] Assigned by simp
  show ?thesis
  proof (cases r)
    case Nil
    then show ?thesis
      using s1 r by (simp add: fscanf_d_comma_d_def Assigned starts_token_def Let_def)
  next
    case (Cons c r')
    have "fscanf_d_comma_d f = Failed \<longleftrightarrow> c \<noteq> CHR '','' \<or> scan_d r' = Failed"
      by (simp add: fscanf_d_comma_d_def Assigned Cons split: scanned.splits)
    also have "\<dots> \<longleftrightarrow> \<not> (c = CHR '','' \<and> starts_number (dropWhile isspace r'))"
      using scan_d_Failed_iff [of r'] by auto
    finally show ?thesis
      using s1 r [symmetric] Cons by (simp add: starts_token_def Let_def)
  qed
qed

lemma scan_d_number:
  assumes "list_all isspace ws" "number_text n" "no_digit_ahead s"
  shows "scan_d (ws @ n @ s) = Assigned (converted (number_value n)) s"
proof -
  obtain c ds where n: "n = c # ds" using assms(2) by (cases n) (auto simp: number_text_def)
  have ws: "\<forall>c\<in>set ws. isspace c" using assms(1) by (simp add: list_all_iff)
  show ?thesis
  proof (cases "c = CHR ''-'' \<or> c = CHR ''+''")
    case True
    then have ds: "ds \<noteq> []" "\<forall>d\<in>set ds. isdigit d"
      using assms(2) n by (simp_all add: number_text_def list_all_iff)
    have nsp: "\<not> isspace c" using True by (auto simp: isspace_def)
    have tw: "takeWhile isdigit (ds @ s) = ds" "dropWhile isdigit (ds @ s) = s"
      using takeWhile_digits [OF ds(2) assms(3)] by simp_all
    have "scan_d (n @ s) = Assigned (converted (number_value n)) s"
      using True nsp tw ds(1)
      by (auto simp: scan_d_def n number_value_def Let_def)
    then show ?thesis by (simp add: scan_d_skips_space [OF ws])
  next
    case False
    then have dn: "\<forall>d\<in>set n. isdigit d"
      using assms(2) n by (simp add: number_text_def list_all_iff)
    then have "isdigit c" using n by simp
    then have nsp: "\<not> isspace c" using isdigit_not_special by blast
    have tw: "takeWhile isdigit (n @ s) = n" "dropWhile isdigit (n @ s) = s"
      using takeWhile_digits [OF dn assms(3)] by simp_all
    have tw': "takeWhile isdigit (c # ds @ s) = c # ds" "dropWhile isdigit (c # ds @ s) = s"
      using tw by (simp_all add: n)
    have dw: "dropWhile isspace (n @ s) = n @ s" using nsp by (simp add: n)
    have sign: "(case n @ s of
                   [] \<Rightarrow> (False, n @ s)
                 | c # r \<Rightarrow> if c = CHR ''-'' then (True, r)
                            else if c = CHR ''+'' then (False, r) else (False, n @ s))
                = (False, n @ s)"
      using False by (simp add: n)
    have nv: "number_value n = digits_value n"
      using False by (simp add: n number_value_def)
    have ne: "n \<noteq> []" by (simp add: n)
    have "scan_d (n @ s) = Assigned (converted (number_value n)) s"
      unfolding scan_d_def dw Let_def sign using tw nv ne by simp
    then show ?thesis by (simp add: scan_d_skips_space [OF ws])
  qed
qed

lemma scan_d_dropWhile: "scan_d (dropWhile isspace f) = scan_d f"
  by (simp add: scan_d_def dropWhile_idem)

lemma fscanf_d_d_numbers:
  assumes "list_all isspace ws1" "number_text n1" "list_all isspace ws2" "number_text n2"
    and "no_digit_ahead (ws2 @ n2 @ rest)" "no_digit_ahead rest"
  shows "fscanf_d_d (ws1 @ n1 @ ws2 @ n2 @ rest) =
           Assigned (converted (number_value n1), converted (number_value n2)) rest"
proof -
  have 1: "scan_d (ws1 @ n1 @ ws2 @ n2 @ rest) =
             Assigned (converted (number_value n1)) (ws2 @ n2 @ rest)"
    using assms(1,2,5) by (rule scan_d_number)
  have 2: "scan_d (ws2 @ n2 @ rest) = Assigned (converted (number_value n2)) rest"
    using assms(3,4,6) by (rule scan_d_number)
  show ?thesis
    unfolding fscanf_d_d_def 1 scanned.case scan_d_dropWhile 2 ..
qed

lemma fscanf_d_comma_d_numbers:
  assumes "list_all isspace ws" "number_text n1" "list_all isspace ws2" "number_text n2"
    and "no_digit_ahead rest"
  shows "fscanf_d_comma_d (ws @ n1 @ CHR '','' # ws2 @ n2 @ rest) =
           Assigned (converted (number_value n1), converted (number_value n2)) rest"
proof -
  have 1: "scan_d (ws @ n1 @ CHR '','' # ws2 @ n2 @ rest) =
             Assigned (converted (number_value n1)) (CHR '','' # ws2 @ n2 @ rest)"
    using assms(1,2) no_digit_ahead_comma by (rule scan_d_number)
  have 2: "scan_d (ws2 @ n2 @ rest) = Assigned (converted (number_value n2)) rest"
    using assms(3,4,5) by (rule scan_d_number)
  show ?thesis
    unfolding fscanf_d_comma_d_def 1 scanned.case list.case using 2 by simp
qed

lemma no_digit_ahead_dropWhile: "no_digit_ahead (dropWhile isdigit s)"
  by (induction s) (simp_all add: no_digit_ahead_def)

lemma number_decomposition:
  assumes "starts_number s"
  shows "\<exists>n. number_text n \<and> s = n @ after_number s \<and> no_digit_ahead (after_number s)"
proof -
  obtain c r where s: "s = c # r" using assms by (cases s) (auto simp: starts_number_def)
  show ?thesis
  proof (cases "c = CHR ''-'' \<or> c = CHR ''+''")
    case True
    then have nd: "\<not> isdigit c" by (auto simp: isdigit_def)
    obtain d r' where r: "r = d # r'" "isdigit d"
      using assms s True nd by (cases r) (auto simp: starts_number_def)
    have an: "after_number s = dropWhile isdigit r" using True s by (simp add: after_number_def)
    let ?n = "c # takeWhile isdigit r"
    have "number_text ?n"
      using True r by (auto simp: number_text_def list_all_iff dest: set_takeWhileD)
    moreover have "s = ?n @ after_number s" unfolding an by (simp add: s)
    moreover have "no_digit_ahead (after_number s)"
      unfolding an by (rule no_digit_ahead_dropWhile)
    ultimately show ?thesis by blast
  next
    case False
    then have d: "isdigit c" using assms s by (auto simp: starts_number_def)
    have an: "after_number s = dropWhile isdigit s" using False s by (simp add: after_number_def)
    let ?n = "takeWhile isdigit s"
    have "?n = c # takeWhile isdigit r" using d s by simp
    then have "number_text ?n"
      using False d by (auto simp: number_text_def list_all_iff dest: set_takeWhileD)
    moreover have "s = ?n @ after_number s" unfolding an by simp
    moreover have "no_digit_ahead (after_number s)"
      unfolding an by (rule no_digit_ahead_dropWhile)
    ultimately show ?thesis by blast
  qed
qed

lemma list_all_takeWhile: "list_all P (takeWhile P s)"
  by (auto simp: list_all_iff dest: set_takeWhileD)

lemma header_decomposition:
  assumes "starts_header f"
  shows "\<exists>ws1 n1 ws2 n2 rest.
           f = ws1 @ n1 @ ws2 @ n2 @ rest \<and>
           list_all isspace ws1 \<and> number_text n1 \<and> list_all isspace ws2 \<and> number_text n2 \<and>
           no_digit_ahead (ws2 @ n2 @ rest) \<and> no_digit_ahead rest"
proof -
  define s1 where "s1 = dropWhile isspace f"
  define r1 where "r1 = after_number s1"
  define s2 where "s2 = dropWhile isspace r1"
  define r2 where "r2 = after_number s2"
  have st: "starts_number s1" "starts_number s2"
    using assms by (simp_all add: starts_header_def Let_def s1_def r1_def s2_def)
  obtain n1 where n1: "number_text n1" "n1 @ r1 = s1" "no_digit_ahead r1"
    using number_decomposition [OF st(1)] unfolding r1_def by metis
  obtain n2 where n2: "number_text n2" "n2 @ r2 = s2" "no_digit_ahead r2"
    using number_decomposition [OF st(2)] unfolding r2_def by metis
  have r1: "takeWhile isspace r1 @ n2 @ r2 = r1"
    unfolding n2(2) s2_def by simp
  have "takeWhile isspace f @ n1 @ takeWhile isspace r1 @ n2 @ r2 = takeWhile isspace f @ s1"
    unfolding r1 n1(2) ..
  also have "\<dots> = f" unfolding s1_def by simp
  finally have f: "f = takeWhile isspace f @ n1 @ takeWhile isspace r1 @ n2 @ r2" by (rule sym)
  have nd: "no_digit_ahead (takeWhile isspace r1 @ n2 @ r2)" unfolding r1 by (rule n1(3))
  show ?thesis
    using f n1(1) n2(1) nd n2(3) list_all_takeWhile [of isspace f]
      list_all_takeWhile [of isspace r1]
    by blast
qed

lemma token_decomposition:
  assumes "starts_token s"
  shows "\<exists>ws n1 ws2 n2 rest.
           s = ws @ n1 @ CHR '','' # ws2 @ n2 @ rest \<and>
           list_all isspace ws \<and> number_text n1 \<and> list_all isspace ws2 \<and> number_text n2 \<and>
           no_digit_ahead rest"
proof -
  define s1 where "s1 = dropWhile isspace s"
  define r1 where "r1 = after_number s1"
  have st1: "starts_number s1"
    using assms by (simp add: starts_token_def Let_def s1_def)
  obtain r where r: "r1 = CHR '','' # r" "starts_number (dropWhile isspace r)"
    using assms unfolding starts_token_def Let_def s1_def [symmetric] r1_def [symmetric]
    by (cases r1) auto
  define s2 where "s2 = dropWhile isspace r"
  define r2 where "r2 = after_number s2"
  have st2: "starts_number s2" using r(2) by (simp add: s2_def)
  obtain n1 where n1: "number_text n1" "n1 @ r1 = s1"
    using number_decomposition [OF st1] unfolding r1_def by metis
  obtain n2 where n2: "number_text n2" "n2 @ r2 = s2" "no_digit_ahead r2"
    using number_decomposition [OF st2] unfolding r2_def by metis
  have rr: "takeWhile isspace r @ n2 @ r2 = r"
    unfolding n2(2) s2_def by simp
  have "takeWhile isspace s @ n1 @ CHR '','' # takeWhile isspace r @ n2 @ r2 =
        takeWhile isspace s @ s1"
    unfolding rr r(1) [symmetric] n1(2) ..
  also have "\<dots> = s" unfolding s1_def by simp
  finally have s: "s = takeWhile isspace s @ n1 @ CHR '','' # takeWhile isspace r @ n2 @ r2"
    by (rule sym)
  show ?thesis
    using s n1(1) n2(1) n2(3) list_all_takeWhile [of isspace s] list_all_takeWhile [of isspace r]
    by blast
qed

subsection \<open>The text that is saved\<close>

lemma join_tokens_Cons:
  "join_tokens (t # ts) = t @ (if ts = [] then [] else '' '' @ join_tokens ts)"
  by (cases ts) auto

lemma save_row_eq:
  assumes "0 \<le> y" "y < canvas_height (g_app g)" "0 \<le> x"
  shows "save_row g y x f =
           f @ join_tokens (map (\<lambda>x'. token_text (cell_token (cell_at g x' (nat y))))
                             [nat x..<nat (canvas_width (g_app g))])"
  using assms
proof (induction g y x f rule: save_row.induct)
  case (1 g y x f)
  let ?w = "canvas_width (g_app g)"
  let ?tok = "\<lambda>x'. token_text (cell_token (cell_at g x' (nat y)))"
  show ?case
  proof (cases "x < ?w")
    case False
    then show ?thesis using "1.prems" by (subst save_row.simps) simp
  next
    case True
    have fs: "find_spot g x y = Some (nat (y * ?w + x))"
      using True "1.prems" by (simp add: find_spot_def check_if_coordinates_make_sense_def)
    have idx: "nat (y * ?w + x) = nat y * nat ?w + nat x"
      using True "1.prems" by (simp add: nat_add_distrib nat_mult_distrib)
    let ?f' = "f @ ?tok (nat x) @ (if x < ?w - 1 then '' '' else [])"
    have step: "save_row g y x f = save_row g y (x + 1) ?f'"
      using True fs idx
      by (subst save_row.simps) (simp add: Let_def token_text_def cell_token_def cell_at_def)
    have ih: "save_row g y (x + 1) ?f' = ?f' @ join_tokens (map ?tok [nat (x + 1)..<nat ?w])"
    proof (cases "x < ?w - 1")
      case True
      with "1.IH"(2) [OF \<open>x < ?w\<close> fs refl refl] "1.prems" show ?thesis
        by (simp add: Let_def token_text_def cell_token_def cell_at_def idx)
    next
      case False
      with "1.IH"(2) [OF \<open>x < ?w\<close> fs refl refl] "1.prems" show ?thesis
        by (simp add: Let_def token_text_def cell_token_def cell_at_def idx)
    qed
    have up: "[nat x..<nat ?w] = nat x # [nat (x + 1)..<nat ?w]"
      using True "1.prems" by (simp add: upt_conv_Cons nat_add_distrib)
    have emp: "nat ?w \<le> nat (x + 1) \<longleftrightarrow> \<not> x < ?w - 1" "\<not> ?w \<le> 0"
      using True "1.prems"(3) by linarith+
    show ?thesis
      unfolding step ih up by (simp add: join_tokens_Cons emp)
  qed
qed

lemma save_rows_eq:
  assumes "0 \<le> y"
  shows "save_rows g y f =
           f @ concat (map (\<lambda>y'. serialize_row g y' @ [newline])
                        [nat y..<nat (canvas_height (g_app g))])"
  using assms
proof (induction g y f rule: save_rows.induct)
  case (1 g y f)
  let ?h = "canvas_height (g_app g)"
  show ?case
  proof (cases "y < ?h")
    case False
    then show ?thesis using "1.prems" by (subst save_rows.simps) simp
  next
    case True
    have row: "save_row g y 0 f = f @ serialize_row g (nat y)"
      using True "1.prems" by (simp add: save_row_eq serialize_row_def)
    have up: "[nat y..<nat ?h] = nat y # [nat (y + 1)..<nat ?h]"
      using True "1.prems" by (simp add: upt_conv_Cons nat_add_distrib)
    have "save_rows g y f = save_rows g (y + 1) (save_row g y 0 f @ [newline])"
      using True by (subst save_rows.simps) simp
    also have "\<dots> = (save_row g y 0 f @ [newline]) @
                 concat (map (\<lambda>y'. serialize_row g y' @ [newline]) [nat (y + 1)..<nat ?h])"
      using True "1.prems" by (intro "1.IH") auto
    finally show ?thesis unfolding row up by simp
  qed
qed

subsection \<open>Reading well-formed lines\<close>

lemma join_tokens_spaced:
  "join_tokens (t # ts) = t @ concat (map (\<lambda>u. CHR '' '' # u) ts)"
  by (induction ts arbitrary: t) auto

lemma no_digit_ahead_spaced:
  "no_digit_ahead s \<Longrightarrow> no_digit_ahead (concat (map (\<lambda>u. CHR '' '' # u) ts) @ s)"
  by (cases ts) (simp_all add: no_digit_ahead_space)

lemma read_row_step:
  assumes "x < fw" "fits_token t" "no_digit_ahead rest" "\<forall>c\<in>set ws. isspace c"
  shows "read_row (int fw) (int y) (int x) (ws @ token_text t @ rest) temp =
         read_row (int fw) (int y) (int (Suc x)) rest (temp[y * fw + x := Some (coerce_token t)])"
proof -
  obtain c a where t: "t = (c, a)" by (cases t)
  have sc: "fscanf_d_comma_d (ws @ token_text (c, a) @ rest) = Assigned (c, a) rest"
    using fscanf_d_comma_d_token [of t rest ws] assms t by (simp add: fits_token_def)
  have idx: "nat (int y * int fw + int x) = y * fw + x"
    by (simp add: nat_add_distrib nat_mult_distrib)
  have suc: "int x + 1 = int (Suc x)" by simp
  have c8: "c < 8 \<longleftrightarrow> c \<le> 7" by arith
  show ?thesis
    unfolding t using assms(1)
    by (subst read_row.simps)
      (simp add: sc idx suc c8 coerce_token_def COLOR_COUNT_def del: of_nat_Suc)
qed

lemma read_row_spaced:
  assumes "\<forall>t\<in>set ts. fits_token t" "no_digit_ahead s"
    "x + length ts = fw" "y * fw + fw \<le> length temp"
  shows "read_row (int fw) (int y) (int x)
           (concat (map (\<lambda>u. CHR '' '' # u) (map token_text ts)) @ s) temp =
         Assigned (take (y * fw + x) temp @ map (Some \<circ> coerce_token) ts @ drop (y * fw + fw) temp) s"
  using assms
proof (induction ts arbitrary: x temp)
  case Nil
  then show ?case by (subst read_row.simps) simp
next
  case (Cons t ts)
  let ?rest = "concat (map (\<lambda>u. CHR '' '' # u) (map token_text ts)) @ s"
  let ?temp = "temp[y * fw + x := Some (coerce_token t)]"
  have x: "x < fw" using Cons.prems by simp
  have "read_row (int fw) (int y) (int x) ('' '' @ token_text t @ ?rest) temp =
        read_row (int fw) (int y) (int (Suc x)) ?rest ?temp"
    using x Cons.prems no_digit_ahead_spaced [of s "map token_text ts"]
    by (intro read_row_step) (simp_all add: isspace_def)
  also have "\<dots> = Assigned (take (y * fw + Suc x) ?temp @ map (Some \<circ> coerce_token) ts @
                              drop (y * fw + fw) ?temp) s"
    using Cons.prems by (intro Cons.IH) simp_all
  also have "take (y * fw + Suc x) ?temp = take (y * fw + x) temp @ [Some (coerce_token t)]"
    using x Cons.prems by (simp add: take_Suc_conv_app_nth)
  also have "drop (y * fw + fw) ?temp = drop (y * fw + fw) temp"
    using x by simp
  finally show ?case by simp
qed

lemma read_row_line:
  assumes "\<forall>t\<in>set r. fits_token t" "no_digit_ahead s" "length r = fw" "0 < fw"
    "y * fw + fw \<le> length temp"
  shows "read_row (int fw) (int y) 0 (join_tokens (map token_text r) @ s) temp =
         Assigned (take (y * fw) temp @ map (Some \<circ> coerce_token) r @ drop (y * fw + fw) temp) s"
proof -
  obtain t ts where r: "r = t # ts" using assms(3,4) by (cases r) auto
  let ?rest = "concat (map (\<lambda>u. CHR '' '' # u) (map token_text ts)) @ s"
  let ?temp = "temp[y * fw + 0 := Some (coerce_token t)]"
  have "read_row (int fw) (int y) (int 0) ([] @ token_text t @ ?rest) temp =
        read_row (int fw) (int y) (int (Suc 0)) ?rest ?temp"
    using assms r no_digit_ahead_spaced [of s "map token_text ts"]
    by (intro read_row_step) simp_all
  also have "\<dots> = Assigned (take (y * fw + Suc 0) ?temp @ map (Some \<circ> coerce_token) ts @
                              drop (y * fw + fw) ?temp) s"
    using assms r by (intro read_row_spaced) auto
  also have "take (y * fw + Suc 0) ?temp = take (y * fw) temp @ [Some (coerce_token t)]"
    using assms by (simp add: take_Suc_conv_app_nth)
  also have "drop (y * fw + fw) ?temp = drop (y * fw + fw) temp"
    using assms by simp
  finally show ?thesis by (simp add: r join_tokens_spaced)
qed

lemma skip_to_eol_line: "newline \<notin> set j \<Longrightarrow> skip_to_eol (j @ newline # rest) = rest"
  by (induction j) auto

lemma read_rows_lines:
  assumes "\<forall>l\<in>set ls. good_line fw l" "0 < fw" "y + length ls = fh" "fh * fw \<le> length temp"
  shows "read_rows (int fw) (int fh) (int y) (concat (map line_text ls) @ rest) temp =
         Assigned (take (y * fw) temp @ map (Some \<circ> coerce_token) (concat (map fst ls)) @
                   drop (fh * fw) temp) rest"
  using assms
proof (induction ls arbitrary: y temp)
  case Nil
  then show ?case by (subst read_rows.simps) simp
next
  case (Cons l ls)
  obtain r j where l: "l = (r, j)" by (cases l)
  have gl: "length r = fw" "\<forall>t\<in>set r. fits_token t" "newline \<notin> set j"
    "no_digit_ahead (j @ [newline])"
    using Cons.prems(1) l by (simp_all add: good_line_def)
  let ?rest = "concat (map line_text ls) @ rest"
  let ?temp = "take (y * fw) temp @ map (Some \<circ> coerce_token) r @ drop (y * fw + fw) temp"
  have y: "y < fh" using Cons.prems by simp
  then have "Suc y * fw \<le> fh * fw" by (intro mult_le_mono1) simp
  then have le: "y * fw + fw \<le> fh * fw" by simp
  then have le': "y * fw + fw \<le> length temp" using Cons.prems by simp
  have nd: "no_digit_ahead (j @ newline # ?rest)"
    using gl(4) by (cases j) (simp_all add: no_digit_ahead_def)
  have row: "read_row (int fw) (int y) 0 (join_tokens (map token_text r) @ j @ newline # ?rest) temp
               = Assigned ?temp (j @ newline # ?rest)"
    using gl Cons.prems(2) le' nd by (intro read_row_line) simp_all
  have len: "length ?temp = length temp" using le' gl(1) by simp
  have suc: "int y + 1 = int (Suc y)" by simp
  have "read_rows (int fw) (int fh) (int y) (concat (map line_text (l # ls)) @ rest) temp =
        read_rows (int fw) (int fh) (int (Suc y)) ?rest ?temp"
    using y row gl(3)
    by (subst read_rows.simps) (simp add: l line_text_def skip_to_eol_line suc del: of_nat_Suc)
  also have "\<dots> = Assigned (take (Suc y * fw) ?temp @
                       map (Some \<circ> coerce_token) (concat (map fst ls)) @ drop (fh * fw) ?temp) rest"
    using Cons.prems len by (intro Cons.IH) simp_all
  also have "take (Suc y * fw) ?temp = take (y * fw) temp @ map (Some \<circ> coerce_token) r"
    using le' gl(1) by (simp add: min_def)
  also have "drop (fh * fw) ?temp = drop (fh * fw) temp"
    using le le' gl(1) y by (simp add: min_def)
  finally show ?case by (simp add: l)
qed

subsection \<open>Copying the temporary grid\<close>

lemma with_canvas_simps [simp]:
  "canvas (g_app (with_canvas g cs)) = cs"
  "canvas_width (g_app (with_canvas g cs)) = canvas_width (g_app g)"
  "canvas_height (g_app (with_canvas g cs)) = canvas_height (g_app g)"
  "with_canvas (with_canvas g cs) cs' = with_canvas g cs'"
  by (simp_all add: with_canvas_def)

lemma store_cell_with_canvas: "store_cell i c g = with_canvas g ((canvas (g_app g))[i := c])"
  by (simp add: store_cell_def with_canvas_def)

lemma div_mod_row:
  fixes w :: nat
  assumes "x < w"
  shows "(y * w + x) div w = y" "(y * w + x) mod w = x"
  using assms by simp_all

lemma row_index_iff:
  fixes w :: nat
  assumes "x < w"
  shows "i = y * w + x \<longleftrightarrow> i div w = y \<and> i mod w = x"
  using assms by (metis div_mod_row div_mult_mod_eq)

lemma copy_row_eq:
  assumes "canvas_width (g_app g) = int w" "canvas_height (g_app g) = int h"
    "y < h" "cw \<le> w" "cw \<le> fw" "y * fw + fw \<le> length cells" "x \<le> cw"
  shows "copy_row (int fw) (int cw) (int y) (int x) (map Some cells) g =
         Done (with_canvas g
           (map (\<lambda>i. if i div w = y \<and> x \<le> i mod w \<and> i mod w < cw
                      then cells ! (y * fw + i mod w) else canvas (g_app g) ! i)
              [0..<length (canvas (g_app g))]))"
  using assms
proof (induction "cw - x" arbitrary: x g)
  case 0
  then have "x = cw" by simp
  moreover have "map (\<lambda>i. if i div w = y \<and> cw \<le> i mod w \<and> i mod w < cw
                      then cells ! (y * fw + i mod w) else canvas (g_app g) ! i)
              [0..<length (canvas (g_app g))] = canvas (g_app g)"
    by (intro nth_equalityI) auto
  ultimately show ?case
    by (subst copy_row.simps) (simp add: with_canvas_def)
next
  case (Suc n)
  let ?cs = "canvas (g_app g)"
  let ?src = "cells ! (y * fw + x)"
  let ?g1 = "store_cell (y * w + x) ?src g"
  have x: "x < cw" using Suc.hyps(2) by simp
  then have xw: "x < w" using Suc.prems by simp
  have fs: "find_spot g (int x) (int y) = Some (y * w + x)"
    using xw Suc.prems
    by (simp add: find_spot_def check_if_coordinates_make_sense_def nat_add_distrib nat_mult_distrib)
  have ld: "load_cell (map Some cells) (nat (int y * int fw + int x)) = Some ?src"
    using x Suc.prems by (simp add: load_cell_def nat_add_distrib nat_mult_distrib)
  have suc: "int x + 1 = int (Suc x)" by simp
  let ?F1 = "\<lambda>i. if i div w = y \<and> Suc x \<le> i mod w \<and> i mod w < cw
                  then cells ! (y * fw + i mod w) else canvas (g_app ?g1) ! i"
  let ?F2 = "\<lambda>i. if i div w = y \<and> x \<le> i mod w \<and> i mod w < cw
                  then cells ! (y * fw + i mod w) else ?cs ! i"
  have "copy_row (int fw) (int cw) (int y) (int x) (map Some cells) g =
        copy_row (int fw) (int cw) (int y) (int (Suc x)) (map Some cells) ?g1"
    using x by (subst copy_row.simps) (simp add: fs ld suc del: of_nat_Suc)
  also have "\<dots> = Done (with_canvas ?g1 (map ?F1 [0..<length (canvas (g_app ?g1))]))"
    using Suc.hyps(2) Suc.prems x
    by (intro Suc.hyps(1)) (simp_all add: store_cell_with_canvas)
  also have "with_canvas ?g1 (map ?F1 [0..<length (canvas (g_app ?g1))]) =
             with_canvas g (map ?F2 [0..<length ?cs])"
  proof -
    have cs1: "canvas (g_app ?g1) = ?cs[y * w + x := ?src]"
      by (simp add: store_cell_with_canvas)
    have "?F1 i = ?F2 i" if "i < length ?cs" for i
    proof (cases "i = y * w + x")
      case True
      then show ?thesis unfolding cs1 using that x xw by (simp add: div_mod_row)
    next
      case False
      then have "\<not> (i div w = y \<and> i mod w = x)" using row_index_iff [OF xw] by blast
      then have "(i div w = y \<and> Suc x \<le> i mod w) \<longleftrightarrow> (i div w = y \<and> x \<le> i mod w)"
        by auto
      then show ?thesis unfolding cs1 using False by auto
    qed
    then have meq: "map ?F1 [0..<length ?cs] = map ?F2 [0..<length ?cs]"
      by (intro map_cong refl) simp
    have len1: "length (canvas (g_app ?g1)) = length ?cs" by (simp add: cs1)
    have wc: "with_canvas ?g1 X = with_canvas g X" for X by (simp add: store_cell_with_canvas)
    show ?thesis unfolding len1 wc by (simp only: meq)
  qed
  finally show ?case .
qed

lemma copy_rows_eq:
  assumes "canvas_width (g_app g) = int w" "canvas_height (g_app g) = int h"
    "chh \<le> h" "chh \<le> fh" "cw \<le> w" "cw \<le> fw" "length cells = fw * fh" "y \<le> chh"
  shows "copy_rows (int fw) (int cw) (int chh) (int y) (map Some cells) g =
         Done (with_canvas g
           (map (\<lambda>i. if y \<le> i div w \<and> i div w < chh \<and> i mod w < cw
                      then cells ! (i div w * fw + i mod w) else canvas (g_app g) ! i)
              [0..<length (canvas (g_app g))]))"
  using assms
proof (induction "chh - y" arbitrary: y g)
  case 0
  then have "y = chh" by simp
  moreover have "map (\<lambda>i. if chh \<le> i div w \<and> i div w < chh \<and> i mod w < cw
                      then cells ! (i div w * fw + i mod w) else canvas (g_app g) ! i)
              [0..<length (canvas (g_app g))] = canvas (g_app g)"
    by (intro nth_equalityI) auto
  ultimately show ?case
    by (subst copy_rows.simps) (simp add: with_canvas_def)
next
  case (Suc n)
  let ?cs = "canvas (g_app g)"
  let ?row = "map (\<lambda>i. if i div w = y \<and> 0 \<le> i mod w \<and> i mod w < cw
                      then cells ! (y * fw + i mod w) else ?cs ! i) [0..<length ?cs]"
  let ?g1 = "with_canvas g ?row"
  have y: "y < chh" using Suc.hyps(2) by simp
  then have "Suc y * fw \<le> fh * fw" using Suc.prems by (intro mult_le_mono1) simp
  then have le: "y * fw + fw \<le> length cells" using Suc.prems by (simp add: mult.commute)
  have row: "copy_row (int fw) (int cw) (int y) 0 (map Some cells) g = Done ?g1"
    using copy_row_eq [of g w h y cw fw cells 0] Suc.prems y le by simp
  have suc: "int y + 1 = int (Suc y)" by simp
  let ?F1 = "\<lambda>i. if Suc y \<le> i div w \<and> i div w < chh \<and> i mod w < cw
                  then cells ! (i div w * fw + i mod w) else canvas (g_app ?g1) ! i"
  let ?F2 = "\<lambda>i. if y \<le> i div w \<and> i div w < chh \<and> i mod w < cw
                  then cells ! (i div w * fw + i mod w) else ?cs ! i"
  have "copy_rows (int fw) (int cw) (int chh) (int y) (map Some cells) g =
        copy_rows (int fw) (int cw) (int chh) (int (Suc y)) (map Some cells) ?g1"
    using y by (subst copy_rows.simps) (simp add: row suc del: of_nat_Suc)
  also have "\<dots> = Done (with_canvas ?g1 (map ?F1 [0..<length (canvas (g_app ?g1))]))"
    using Suc.hyps(2) Suc.prems y by (intro Suc.hyps(1)) simp_all
  also have "with_canvas ?g1 (map ?F1 [0..<length (canvas (g_app ?g1))]) =
             with_canvas g (map ?F2 [0..<length ?cs])"
  proof -
    have cs1: "canvas (g_app ?g1) = ?row" by simp
    have "?F1 i = ?F2 i" if "i < length ?cs" for i
      unfolding cs1 using that y by (auto simp: le_Suc_eq not_less_eq_eq)
    then have meq: "map ?F1 [0..<length ?cs] = map ?F2 [0..<length ?cs]"
      by (intro map_cong refl) simp
    have len1: "length (canvas (g_app ?g1)) = length ?cs" by simp
    have wc: "with_canvas ?g1 X = with_canvas g X" for X by simp
    show ?thesis unfolding len1 wc by (simp only: meq)
  qed
  finally show ?case .
qed

lemma copy_rows_overlay:
  assumes "canvas_inv g" "0 < fw" "0 < fh" "length cells = fw * fh"
  shows "copy_rows (int fw)
           (if int fw < canvas_width (g_app g) then int fw else canvas_width (g_app g))
           (if int fh < canvas_height (g_app g) then int fh else canvas_height (g_app g))
           0 (map Some cells) g = Done (overlay fw fh cells g)"
proof -
  let ?w = "nat (canvas_width (g_app g))" and ?h = "nat (canvas_height (g_app g))"
  have w: "canvas_width (g_app g) = int ?w" and h: "canvas_height (g_app g) = int ?h"
    using assms(1) by (simp_all add: canvas_inv_def)
  have cw: "(if int fw < canvas_width (g_app g) then int fw else canvas_width (g_app g)) =
              int (min fw ?w)"
    and chh: "(if int fh < canvas_height (g_app g) then int fh else canvas_height (g_app g)) =
              int (min fh ?h)"
    using assms(1) by (auto simp: canvas_inv_def min_def)
  let ?F1 = "\<lambda>i. if 0 \<le> i div ?w \<and> i div ?w < min fh ?h \<and> i mod ?w < min fw ?w
                  then cells ! (i div ?w * fw + i mod ?w) else canvas (g_app g) ! i"
  let ?F2 = "\<lambda>i. if i mod ?w < min fw ?w \<and> i div ?w < min fh ?h
                  then cells ! (i div ?w * fw + i mod ?w) else canvas (g_app g) ! i"
  have "copy_rows (int fw) (int (min fw ?w)) (int (min fh ?h)) (int 0) (map Some cells) g =
        Done (with_canvas g (map ?F1 [0..<length (canvas (g_app g))]))"
    using w h assms by (intro copy_rows_eq [where h = ?h and fh = fh]) simp_all
  then have main: "copy_rows (int fw) (int (min fw ?w)) (int (min fh ?h)) 0 (map Some cells) g =
        Done (with_canvas g (map ?F1 [0..<length (canvas (g_app g))]))"
    by simp
  have meq: "map ?F1 [0..<length (canvas (g_app g))] = map ?F2 [0..<length (canvas (g_app g))]"
    by (intro map_cong refl) auto
  show ?thesis
    unfolding cw chh overlay_def Let_def main meq ..
qed

subsection \<open>Loading a well-formed text\<close>

lemma load_grid:
  assumes "canvas_inv g" "0 < fw" "fw \<le> 1000" "0 < fh" "fh \<le> 1000"
    "length ls = fh" "\<forall>l\<in>set ls. good_line fw l"
  shows "load_masterpiece (Some (grid_text fw fh ls @ rest)) True g =
           Done (overlay fw fh (map coerce_token (concat (map fst ls))) g)"
proof -
  let ?cells = "map coerce_token (concat (map fst ls))"
  let ?data = "concat (map line_text ls) @ rest"
  have hdr: "fscanf_d_d (grid_text fw fh ls @ rest) = Assigned (int fw, int fh) (newline # ?data)"
    using fscanf_d_d_header [of "int fw" "int fh" ?data] assms(3,5)
    by (simp add: grid_text_def fits_int_small)
  have len: "length (concat (map fst ls)) = fw * fh"
  proof -
    have "length (concat (map fst ls)) = length ls * fw"
      using assms(7) by (induction ls) (simp_all add: good_line_def)
    then show ?thesis using assms(6) by (simp add: mult.commute)
  qed
  have "read_rows (int fw) (int fh) (int 0) ?data (replicate (fw * fh) None) =
        Assigned (take (0 * fw) (replicate (fw * fh) None) @
                  map (Some \<circ> coerce_token) (concat (map fst ls)) @
                  drop (fh * fw) (replicate (fw * fh) None)) rest"
    using assms by (intro read_rows_lines) (simp_all add: mult.commute)
  then have rd: "read_rows (int fw) (int fh) 0 ?data (replicate (fw * fh) None) =
        Assigned (map (Some \<circ> coerce_token) (concat (map fst ls))) rest"
    by (simp add: mult.commute)
  have cp: "copy_rows (int fw)
           (if int fw < canvas_width (g_app g) then int fw else canvas_width (g_app g))
           (if int fh < canvas_height (g_app g) then int fh else canvas_height (g_app g))
           0 (map (Some \<circ> coerce_token) (concat (map fst ls))) g = Done (overlay fw fh ?cells g)"
    using copy_rows_overlay [of g fw fh ?cells] assms(1,2,4) len by simp
  show ?thesis
    using assms(2-5)
    by (simp add: load_masterpiece_def hdr rd cp MAX_CANVAS_WIDTH_def MAX_CANVAS_HEIGHT_def)
qed

lemma overlay_nth:
  assumes "canvas_inv g" "int x < canvas_width (g_app g)" "int y < canvas_height (g_app g)"
  shows "canvas (g_app (overlay fw fh cells g)) ! (y * nat (canvas_width (g_app g)) + x) =
           (if int x < min (int fw) (canvas_width (g_app g)) \<and>
               int y < min (int fh) (canvas_height (g_app g))
            then cells ! (y * fw + x)
            else canvas (g_app g) ! (y * nat (canvas_width (g_app g)) + x))"
proof -
  let ?w = "nat (canvas_width (g_app g))" and ?h = "nat (canvas_height (g_app g))"
  have x: "x < ?w" and y: "y < ?h" using assms by simp_all
  have "Suc y * ?w \<le> ?h * ?w" using y by (intro mult_le_mono1) simp
  then have "y * ?w + x < ?w * ?h" using x by (simp add: mult.commute)
  then have lt: "y * ?w + x < length (canvas (g_app g))"
    using assms(1) by (simp add: canvas_inv_def nat_mult_distrib)
  show ?thesis
    using x y lt by (auto simp: overlay_def Let_def div_mod_row)
qed

lemma overlay_length:
  "length (canvas (g_app (overlay fw fh cells g))) = length (canvas (g_app g))"
  by (simp add: overlay_def Let_def)

lemma nth_concat_uniform:
  assumes "\<forall>r\<in>set rows. length r = n" "y < length rows" "x < n"
  shows "concat rows ! (y * n + x) = rows ! y ! x"
  using assms
proof (induction rows arbitrary: y)
  case Nil
  then show ?case by simp
next
  case (Cons r rows)
  show ?case
  proof (cases y)
    case 0
    then show ?thesis using Cons.prems by (simp add: nth_append)
  next
    case (Suc k)
    then have "concat (r # rows) ! (y * n + x) = concat rows ! (k * n + x)"
      using Cons.prems by (simp add: nth_append)
    then show ?thesis using Cons Suc by simp
  qed
qed

lemma length_concat_uniform:
  "\<forall>r\<in>set rows. length r = n \<Longrightarrow> length (concat rows) = length rows * n"
  by (induction rows) simp_all

lemma map_nth_offset:
  "k + n \<le> length cs \<Longrightarrow> map (\<lambda>x. cs ! (k + x)) [0..<n] = take n (drop k cs)"
  by (intro nth_equalityI) simp_all

lemma concat_rows_of_buffer:
  "h * w \<le> length cs \<Longrightarrow>
   concat (map (\<lambda>y. map (\<lambda>x. cs ! (y * w + x)) [0..<w]) [0..<h]) = take (h * w) cs"
proof (induction h)
  case 0
  then show ?case by simp
next
  case (Suc h)
  then have "concat (map (\<lambda>y. map (\<lambda>x. cs ! (y * w + x)) [0..<w]) [0..<Suc h]) =
             take (h * w) cs @ take w (drop (h * w) cs)"
    by (simp add: map_nth_offset)
  also have "\<dots> = take (h * w + w) cs"
    by (simp add: take_add)
  finally show ?case by (simp add: add.commute)
qed

lemma fits_token_cell_token: "fits_token (cell_token c)"
proof -
  have "- 32768 \<le> sint (color c)" "sint (color c) < 32768"
    using sint_ge [of "color c"] sint_lt [of "color c"] by simp_all
  moreover have "uint (ch c) < 256"
    using uint_lt2p [of "ch c"] by simp
  moreover have "(0::int) \<le> uint (ch c)" by simp
  ultimately show ?thesis
    unfolding fits_token_def cell_token_def fits_int_def INT_MIN_def INT_MAX_def fst_conv snd_conv
    by linarith
qed

lemma coerce_cell_token:
  assumes "0 \<le> sint (color c)" "sint (color c) \<le> 7"
  shows "coerce_token (cell_token c) = c"
proof -
  have "uint (ch c) < 2 ^ 8" using uint_lt2p [of "ch c"] by simp
  then have "uint (ch c) \<le> 255" by simp
  then show ?thesis using assms by (simp add: coerce_token_def cell_token_def)
qed

lemma serialize_grid_text:
  assumes "canvas_inv g"
  shows "serialize g =
           grid_text (nat (canvas_width (g_app g))) (nat (canvas_height (g_app g)))
             (map (\<lambda>y. (map (\<lambda>x. cell_token (cell_at g x y))
                            [0..<nat (canvas_width (g_app g))], []))
                [0..<nat (canvas_height (g_app g))])"
  using assms
  by (simp add: serialize_def grid_text_def serialize_row_def line_text_def canvas_inv_def
      comp_def)

lemma overlay_same_size:
  assumes "canvas_inv g" "length cells = length (canvas (g_app g))"
  shows "overlay (nat (canvas_width (g_app g))) (nat (canvas_height (g_app g))) cells g =
           with_canvas g cells"
proof -
  let ?w = "nat (canvas_width (g_app g))" and ?h = "nat (canvas_height (g_app g))"
  have len: "length (canvas (g_app g)) = ?w * ?h" and w: "0 < ?w"
    using assms(1) by (simp_all add: canvas_inv_def nat_mult_distrib)
  have "(if i mod ?w < min ?w ?w \<and> i div ?w < min ?h ?h
         then cells ! (i div ?w * ?w + i mod ?w) else canvas (g_app g) ! i) = cells ! i"
    if "i < length (canvas (g_app g))" for i
  proof -
    have "i div ?w < ?h" using that len by (simp add: less_mult_imp_div_less mult.commute)
    then show ?thesis using w by simp
  qed
  then have "map (\<lambda>i. if i mod ?w < min ?w ?w \<and> i div ?w < min ?h ?h
                 then cells ! (i div ?w * ?w + i mod ?w) else canvas (g_app g) ! i)
               [0..<length (canvas (g_app g))] = map (\<lambda>i. cells ! i) [0..<length cells]"
    unfolding assms(2) [symmetric] by (intro map_cong refl) simp
  then show ?thesis
    unfolding overlay_def Let_def by (simp only: map_nth)
qed

subsection \<open>Saving, and loading what was saved\<close>

lemma save_masterpiece_serialize: "save_masterpiece True g file = Some (serialize g)"
  by (simp add: save_masterpiece_def serialize_def save_rows_eq)

text \<open>
  C7. What \<open>save_masterpiece\<close> writes is the text of the canvas: the line with width and
  height, then one line for each row with the tokens \<^verbatim>\<open><colorIndex>,<asciiCode>\<close> of its
  cells from left to right, separated by single spaces, nothing after the last token. For
  the 3 by 2 canvas with \<^verbatim>\<open>#\<close> in colour 1 at (0,0) and \<^verbatim>\<open>*\<close> in colour 3 at (2,1)
  these are the three lines \<^verbatim>\<open>3 2\<close>, \<^verbatim>\<open>1,35 7,32 7,32\<close> and \<^verbatim>\<open>7,32 7,32 3,42\<close>.
\<close>

theorem save_writes_the_format:
  "save_masterpiece True g file = Some (serialize g) \<and>
   save_masterpiece True painted_3x2 file =
     Some (''3 2'' @ [newline] @ ''1,35 7,32 7,32'' @ [newline] @ ''7,32 7,32 3,42'' @ [newline])"
proof
  show "save_masterpiece True g file = Some (serialize g)"
    by (rule save_masterpiece_serialize)
  show "save_masterpiece True painted_3x2 file =
     Some (''3 2'' @ [newline] @ ''1,35 7,32 7,32'' @ [newline] @ ''7,32 7,32 3,42'' @ [newline])"
    by code_simp
qed



text \<open>
  C2. For a canvas whose cells have colours in 0..7 (the character of a cell is a byte),
  loading the text that \<open>save_masterpiece\<close> wrote onto a canvas of the same width and
  height gives exactly the cells of the saved canvas.
\<close>

theorem save_then_load_is_identity:
  assumes "canvas_inv g" "canvas_inv g0"
    and "canvas_width (g_app g0) = canvas_width (g_app g)"
    and "canvas_height (g_app g0) = canvas_height (g_app g)"
    and "\<forall>c\<in>set (canvas (g_app g)). 0 \<le> sint (color c) \<and> sint (color c) \<le> 7"
  shows "load_masterpiece (save_masterpiece True g file) True g0 =
           Done (g0\<lparr>g_app := (g_app g0)\<lparr>canvas := canvas (g_app g)\<rparr>\<rparr>)"
proof -
  let ?w = "nat (canvas_width (g_app g))" and ?h = "nat (canvas_height (g_app g))"
  let ?cs = "canvas (g_app g)"
  let ?rows = "map (\<lambda>y. map (\<lambda>x. cell_token (cell_at g x y)) [0..<?w]) [0..<?h]"
  let ?ls = "map (\<lambda>y. (map (\<lambda>x. cell_token (cell_at g x y)) [0..<?w], [] :: string)) [0..<?h]"
  have dims: "0 < ?w" "?w \<le> 1000" "0 < ?h" "?h \<le> 1000"
    using assms(1) unfolding canvas_inv_def MAX_CANVAS_WIDTH_def MAX_CANVAS_HEIGHT_def
    by linarith+
  have len: "length ?cs = ?h * ?w"
    using assms(1) by (simp add: canvas_inv_def nat_mult_distrib mult.commute)
  have len0: "length (canvas (g_app g0)) = length ?cs"
    using assms(1-4) by (simp add: canvas_inv_def)
  have good: "\<forall>l\<in>set ?ls. good_line ?w l"
    by (auto simp: good_line_def fits_token_cell_token no_digit_ahead_def isdigit_def)
  have fst: "map fst ?ls = ?rows" by (simp add: comp_def)
  have "concat ?rows = map cell_token (concat (map (\<lambda>y. map (\<lambda>x. ?cs ! (y * ?w + x)) [0..<?w]) [0..<?h]))"
    by (simp add: map_concat comp_def cell_at_def)
  also have "\<dots> = map cell_token ?cs"
    using concat_rows_of_buffer [of ?h ?w ?cs] len by simp
  finally have "map coerce_token (concat ?rows) = map (coerce_token \<circ> cell_token) ?cs"
    by simp
  also have "\<dots> = ?cs"
    using assms(5) by (intro map_idI) (simp add: coerce_cell_token)
  finally have cells: "map coerce_token (concat (map fst ?ls)) = ?cs"
    unfolding fst .
  have "load_masterpiece (Some (grid_text ?w ?h ?ls @ [])) True g0 =
          Done (overlay ?w ?h (map coerce_token (concat (map fst ?ls))) g0)"
    using load_grid [of g0 ?w ?h ?ls "[]"] assms(2) dims good by simp
  then have "load_masterpiece (Some (serialize g)) True g0 = Done (overlay ?w ?h ?cs g0)"
    unfolding cells using serialize_grid_text [OF assms(1)] by simp
  also have "overlay ?w ?h ?cs g0 = with_canvas g0 ?cs"
    using overlay_same_size [OF assms(2), of ?cs] len0 assms(3,4) by simp
  finally show ?thesis
    by (simp add: save_masterpiece_serialize with_canvas_def)
qed

theorem save_then_load_is_identity_witness:
  "canvas_inv painted_3x2 \<and> canvas_inv edge_canvas \<and>
   load_masterpiece (save_masterpiece True painted_3x2 None) True edge_canvas =
     Done (edge_canvas\<lparr>g_app := (g_app edge_canvas)\<lparr>canvas := canvas (g_app painted_3x2)\<rparr>\<rparr>)"
proof -
  have 1: "canvas_inv painted_3x2" by code_simp
  have 2: "canvas_inv edge_canvas" by code_simp
  have 3: "canvas_width (g_app edge_canvas) = canvas_width (g_app painted_3x2)" by code_simp
  have 4: "canvas_height (g_app edge_canvas) = canvas_height (g_app painted_3x2)" by code_simp
  have 5: "\<forall>c\<in>set (canvas (g_app painted_3x2)). 0 \<le> sint (color c) \<and> sint (color c) \<le> 7"
    by code_simp
  show ?thesis
    using save_then_load_is_identity [OF 1 2 3 4 5, of None] 1 2 by simp
qed

subsection \<open>Reading any text\<close>

text \<open>
  The reading loops take the tokens as \<open>read_tokens\<close> and \<open>read_lines\<close> do, and store the
  cell of each token at its place in the temporary grid (\<open>read_rows_fresh\<close>). A read fails
  exactly when at some place of the grid the text that is left does not begin with a token
  (\<open>token_stream_None\<close>, \<open>read_lines_None_position\<close>).
\<close>

lemma read_tokens_length: "read_tokens n f = Some (ts, f') \<Longrightarrow> length ts = n"
  by (induction n arbitrary: f ts) (auto split: scanned.splits option.splits)

lemma read_lines_length: "read_lines fw k f = Some (ts, f') \<Longrightarrow> length ts = k * fw"
proof (induction k arbitrary: f ts)
  case 0
  then show ?case by simp
next
  case (Suc k)
  from Suc.prems obtain row f1 us where
    rt: "read_tokens fw f = Some (row, f1)"
    and rl: "read_lines fw k (skip_to_eol f1) = Some (us, f')"
    and ts: "ts = row @ us"
    by (auto split: option.splits)
  show ?case
    using read_tokens_length [OF rt] Suc.IH [OF rl] by (simp add: ts)
qed

lemma read_tokens_add:
  "read_tokens (m + n) f =
     (case read_tokens m f of
        None \<Rightarrow> None
      | Some (ts, f1) \<Rightarrow>
          (case read_tokens n f1 of None \<Rightarrow> None | Some (us, f2) \<Rightarrow> Some (ts @ us, f2)))"
  by (induction m arbitrary: f) (auto split: scanned.splits option.splits)

lemma read_lines_add:
  "read_lines fw (a + b) f =
     (case read_lines fw a f of
        None \<Rightarrow> None
      | Some (ts, f1) \<Rightarrow>
          (case read_lines fw b f1 of None \<Rightarrow> None | Some (us, f2) \<Rightarrow> Some (ts @ us, f2)))"
  by (induction a arbitrary: f) (auto split: option.splits)

lemma read_row_any_token:
  assumes "x < fw" "fscanf_d_comma_d f = Assigned t f'"
  shows "read_row (int fw) (int y) (int x) f temp =
         read_row (int fw) (int y) (int (Suc x)) f' (temp[y * fw + x := Some (coerce_token t)])"
proof -
  obtain c a where t: "t = (c, a)" by (cases t)
  have idx: "nat (int y * int fw + int x) = y * fw + x"
    by (simp add: nat_add_distrib nat_mult_distrib)
  have suc: "int x + 1 = int (Suc x)" by simp
  have c8: "c < 8 \<longleftrightarrow> c \<le> 7" by arith
  show ?thesis
    using assms unfolding t
    by (subst read_row.simps)
      (simp add: idx suc c8 coerce_token_def COLOR_COUNT_def del: of_nat_Suc)
qed

lemma read_row_read_tokens:
  assumes "read_tokens n f = Some (ts, f')" "x + n \<le> fw" "y * fw + fw \<le> length temp"
  shows "read_row (int fw) (int y) (int x) f temp =
         read_row (int fw) (int y) (int (x + n)) f'
           (take (y * fw + x) temp @ map (Some \<circ> coerce_token) ts @ drop (y * fw + x + n) temp)"
  using assms
proof (induction n arbitrary: x f temp ts)
  case 0
  then show ?case by simp
next
  case (Suc n)
  from Suc.prems(1) obtain t f1 ts' where
    sc: "fscanf_d_comma_d f = Assigned t f1" and rt: "read_tokens n f1 = Some (ts', f')"
    and ts: "ts = t # ts'"
    by (auto split: scanned.splits option.splits)
  let ?temp = "temp[y * fw + x := Some (coerce_token t)]"
  have x: "x < fw" using Suc.prems by simp
  have "read_row (int fw) (int y) (int x) f temp =
        read_row (int fw) (int y) (int (Suc x)) f1 ?temp"
    using x sc by (rule read_row_any_token)
  also have "\<dots> = read_row (int fw) (int y) (int (Suc x + n)) f'
           (take (y * fw + Suc x) ?temp @ map (Some \<circ> coerce_token) ts' @
            drop (y * fw + Suc x + n) ?temp)"
    using Suc.prems by (intro Suc.IH [OF rt]) simp_all
  also have "take (y * fw + Suc x) ?temp = take (y * fw + x) temp @ [Some (coerce_token t)]"
    using x Suc.prems by (simp add: take_Suc_conv_app_nth)
  also have "drop (y * fw + Suc x + n) ?temp = drop (y * fw + Suc x + n) temp"
    by simp
  finally show ?case by (simp add: ts)
qed

lemma read_row_read_tokens_None:
  assumes "read_tokens n f = None" "x + n \<le> fw"
  shows "read_row (int fw) (int y) (int x) f temp = Failed"
  using assms
proof (induction n arbitrary: x f temp)
  case 0
  then show ?case by simp
next
  case (Suc n)
  have x: "x < fw" using Suc.prems by simp
  show ?case
  proof (cases "fscanf_d_comma_d f")
    case Failed
    then show ?thesis using x by (subst read_row.simps) simp
  next
    case (Assigned t f1)
    then have "read_tokens n f1 = None"
      using Suc.prems(1) by (auto split: option.splits)
    then have "read_row (int fw) (int y) (int (Suc x)) f1
                 (temp[y * fw + x := Some (coerce_token t)]) = Failed"
      using Suc.prems by (intro Suc.IH) simp_all
    then show ?thesis using read_row_any_token [OF x Assigned] by simp
  qed
qed

lemma read_row_exit: "read_row (int fw) (int y) (int fw) f temp = Assigned temp f"
  by (subst read_row.simps) simp

lemma read_rows_read_lines:
  assumes "read_lines fw k f = Some (ts, f')" "y + k \<le> fh" "fh * fw \<le> length temp"
  shows "read_rows (int fw) (int fh) (int y) f temp =
         read_rows (int fw) (int fh) (int (y + k)) f'
           (take (y * fw) temp @ map (Some \<circ> coerce_token) ts @ drop ((y + k) * fw) temp)"
  using assms
proof (induction k arbitrary: y f temp ts)
  case 0
  then show ?case by simp
next
  case (Suc k)
  from Suc.prems(1) obtain row f1 us where
    rt: "read_tokens fw f = Some (row, f1)"
    and rl: "read_lines fw k (skip_to_eol f1) = Some (us, f')"
    and ts: "ts = row @ us"
    by (auto split: option.splits)
  have lrow: "length row = fw" using read_tokens_length [OF rt] .
  let ?temp = "take (y * fw) temp @ map (Some \<circ> coerce_token) row @ drop (y * fw + fw) temp"
  have y: "y < fh" using Suc.prems by simp
  then have "Suc y * fw \<le> fh * fw" by (intro mult_le_mono1) simp
  then have le: "y * fw + fw \<le> fh * fw" by simp
  then have le': "y * fw + fw \<le> length temp" using Suc.prems by simp
  have "read_row (int fw) (int y) (int 0) f temp =
        read_row (int fw) (int y) (int (0 + fw)) f1
          (take (y * fw + 0) temp @ map (Some \<circ> coerce_token) row @ drop (y * fw + 0 + fw) temp)"
    using rt le' by (intro read_row_read_tokens) simp_all
  then have row: "read_row (int fw) (int y) 0 f temp = Assigned ?temp f1"
    by (simp add: read_row_exit)
  have len: "length ?temp = length temp" using le' lrow by simp
  have suc: "int y + 1 = int (Suc y)" by simp
  have "read_rows (int fw) (int fh) (int y) f temp =
        read_rows (int fw) (int fh) (int (Suc y)) (skip_to_eol f1) ?temp"
    using y row by (subst read_rows.simps) (simp add: suc del: of_nat_Suc)
  also have "\<dots> = read_rows (int fw) (int fh) (int (Suc y + k)) f'
           (take (Suc y * fw) ?temp @ map (Some \<circ> coerce_token) us @
            drop ((Suc y + k) * fw) ?temp)"
    using Suc.prems len by (intro Suc.IH [OF rl]) simp_all
  also have "take (Suc y * fw) ?temp = take (y * fw) temp @ map (Some \<circ> coerce_token) row"
    using le' lrow by (simp add: min_def)
  also have "drop ((Suc y + k) * fw) ?temp = drop ((Suc y + k) * fw) temp"
  proof -
    define N where "N = (Suc y + k) * fw"
    have geN: "y * fw + fw \<le> N" unfolding N_def by (simp add: algebra_simps)
    have "drop N ?temp = drop N temp" using geN le' lrow by (simp add: min_def)
    then show ?thesis unfolding N_def .
  qed
  finally show ?case by (simp add: ts)
qed

lemma read_rows_exit: "read_rows (int fw) (int fh) (int fh) f temp = Assigned temp f"
  by (subst read_rows.simps) simp

lemma read_rows_read_lines_None:
  assumes "read_lines fw k f = None" "y + k \<le> fh" "fh * fw \<le> length temp"
  shows "read_rows (int fw) (int fh) (int y) f temp = Failed"
  using assms
proof (induction k arbitrary: y f temp)
  case 0
  then show ?case by simp
next
  case (Suc k)
  have y: "y < fh" using Suc.prems by simp
  then have "Suc y * fw \<le> fh * fw" by (intro mult_le_mono1) simp
  then have le': "y * fw + fw \<le> length temp" using Suc.prems by simp
  have suc: "int y + 1 = int (Suc y)" by simp
  show ?case
  proof (cases "read_tokens fw f")
    case None
    then have "read_row (int fw) (int y) (int 0) f temp = Failed"
      using read_row_read_tokens_None [of fw f 0 fw y temp] by simp
    then show ?thesis using y by (subst read_rows.simps) simp
  next
    case (Some p)
    obtain row f1 where rt: "read_tokens fw f = Some (row, f1)" using Some by (cases p) simp
    then have rl: "read_lines fw k (skip_to_eol f1) = None"
      using Suc.prems(1) by (auto split: option.splits)
    have lrow: "length row = fw" using read_tokens_length [OF rt] .
    let ?temp = "take (y * fw) temp @ map (Some \<circ> coerce_token) row @ drop (y * fw + fw) temp"
    have "read_row (int fw) (int y) (int 0) f temp =
        read_row (int fw) (int y) (int (0 + fw)) f1
          (take (y * fw + 0) temp @ map (Some \<circ> coerce_token) row @ drop (y * fw + 0 + fw) temp)"
      using rt le' by (intro read_row_read_tokens) simp_all
    then have row: "read_row (int fw) (int y) 0 f temp = Assigned ?temp f1"
      by (simp add: read_row_exit)
    have len: "length ?temp = length temp" using le' lrow by simp
    have "read_rows (int fw) (int fh) (int (Suc y)) (skip_to_eol f1) ?temp = Failed"
      using Suc.prems len by (intro Suc.IH [OF rl]) simp_all
    then show ?thesis
      using y row by (subst read_rows.simps) (simp add: suc del: of_nat_Suc)
  qed
qed

text \<open>The reading loops on the fresh block: all tokens, or none.\<close>

lemma read_rows_fresh:
  "read_rows (int fw) (int fh) 0 f (replicate (fw * fh) None) =
     (case read_lines fw fh f of
        None \<Rightarrow> Failed
      | Some (ts, f') \<Rightarrow> Assigned (map (Some \<circ> coerce_token) ts) f')"
proof (cases "read_lines fw fh f")
  case None
  then have "read_rows (int fw) (int fh) (int 0) f (replicate (fw * fh) None) = Failed"
    using read_rows_read_lines_None [of fw fh f 0 fh "replicate (fw * fh) None"]
    by (simp add: mult.commute)
  then show ?thesis using None by simp
next
  case (Some p)
  obtain ts f' where rl: "read_lines fw fh f = Some (ts, f')" using Some by (cases p) simp
  have len: "length ts = fh * fw" using read_lines_length [OF rl] .
  have "read_rows (int fw) (int fh) (int 0) f (replicate (fw * fh) None) =
        read_rows (int fw) (int fh) (int (0 + fh)) f'
          (take (0 * fw) (replicate (fw * fh) None) @ map (Some \<circ> coerce_token) ts @
           drop ((0 + fh) * fw) (replicate (fw * fh) None))"
    using rl by (intro read_rows_read_lines) (simp_all add: mult.commute)
  then show ?thesis using rl by (simp add: read_rows_exit mult.commute)
qed

lemma token_stream_None:
  assumes "token_stream fw k j f = Some s" "fscanf_d_comma_d s = Failed" "k < fh" "j < fw"
  shows "read_lines fw fh f = None"
proof -
  from assms(1) obtain us f1 pre where
    rl: "read_lines fw k f = Some (us, f1)" and rt: "read_tokens j f1 = Some (pre, s)"
    by (auto simp: token_stream_def split: option.splits)
  define n where "n = fw - Suc j"
  define m where "m = fh - Suc k"
  have fw: "fw = j + Suc n" using assms(4) by (simp add: n_def)
  have fh: "fh = k + Suc m" using assms(3) by (simp add: m_def)
  have "read_tokens (Suc n) s = None" using assms(2) by simp
  then have "read_tokens fw f1 = None"
    unfolding fw read_tokens_add [of j "Suc n" f1] using rt by simp
  then have "read_lines fw (Suc m) f1 = None" by simp
  then show ?thesis
    unfolding fh read_lines_add [of fw k "Suc m" f] using rl by simp
qed

lemma token_stream_nth:
  assumes "read_lines fw fh f = Some (ts, f'')" "token_stream fw y x f = Some s"
    and "fscanf_d_comma_d s = Assigned t s'" "y < fh" "x < fw"
  shows "ts ! (y * fw + x) = t"
proof -
  from assms(2) obtain us f1 pre where
    rl: "read_lines fw y f = Some (us, f1)" and rt: "read_tokens x f1 = Some (pre, s)"
    by (auto simp: token_stream_def split: option.splits)
  define n where "n = fw - Suc x"
  define m where "m = fh - Suc y"
  have fw: "fw = x + Suc n" using assms(5) by (simp add: n_def)
  have fh: "fh = y + Suc m" using assms(4) by (simp add: m_def)
  have lus: "length us = y * fw" using read_lines_length [OF rl] .
  have lpre: "length pre = x" using read_tokens_length [OF rt] .
  from assms(1) obtain vs where rl2: "read_lines fw (Suc m) f1 = Some (vs, f'')" and ts: "ts = us @ vs"
    unfolding fh read_lines_add [of fw y "Suc m" f] using rl by (auto split: option.splits)
  from rl2 obtain row f2 later where
    rt2: "read_tokens fw f1 = Some (row, f2)" and vs: "vs = row @ later"
    by (auto split: option.splits)
  from rt2 obtain post where "read_tokens (Suc n) s = Some (post, f2)" and row: "row = pre @ post"
    unfolding fw read_tokens_add [of x "Suc n" f1] using rt by (auto split: option.splits)
  then obtain post' where post: "post = t # post'"
    using assms(3) by (auto split: option.splits)
  show ?thesis
    unfolding ts vs row post using lus lpre by (simp add: nth_append)
qed

lemma token_stream_Suc:
  "read_tokens fw f = Some (row, f1) \<Longrightarrow>
   token_stream fw (Suc k) j f = token_stream fw k j (skip_to_eol f1)"
  by (cases "read_lines fw k (skip_to_eol f1)") (auto simp: token_stream_def)

lemma token_stream_0:
  "read_tokens j f = Some (pre, s) \<Longrightarrow> token_stream fw 0 j f = Some s"
  by (simp add: token_stream_def)

lemma read_lines_None_position:
  assumes "read_lines fw fh f = None"
  shows "\<exists>k<fh. \<exists>j<fw. \<exists>s. token_stream fw k j f = Some s \<and> fscanf_d_comma_d s = Failed"
proof -
  have tok: "\<exists>j<n. \<exists>pre s. read_tokens j f = Some (pre, s) \<and> fscanf_d_comma_d s = Failed"
    if "read_tokens n f = None" for n f
    using that
  proof (induction n arbitrary: f)
    case 0
    then show ?case by simp
  next
    case (Suc n)
    show ?case
    proof (cases "fscanf_d_comma_d f")
      case Failed
      then have "0 < Suc n" "read_tokens 0 f = Some ([], f)" "fscanf_d_comma_d f = Failed"
        by simp_all
      then show ?thesis by blast
    next
      case (Assigned t f1)
      then have "read_tokens n f1 = None" using Suc.prems by (auto split: option.splits)
      then obtain j pre s where "j < n" "read_tokens j f1 = Some (pre, s)"
        "fscanf_d_comma_d s = Failed"
        using Suc.IH by blast
      then have "Suc j < Suc n" "read_tokens (Suc j) f = Some (t # pre, s)"
        "fscanf_d_comma_d s = Failed"
        using Assigned by simp_all
      then show ?thesis by blast
    qed
  qed
  show ?thesis
    using assms
  proof (induction fh arbitrary: f)
    case 0
    then show ?case by simp
  next
    case (Suc fh)
    show ?case
    proof (cases "read_tokens fw f")
      case None
      then obtain j pre s where "j < fw" "read_tokens j f = Some (pre, s)"
        "fscanf_d_comma_d s = Failed"
        using tok by blast
      then show ?thesis
        using token_stream_0 [of j f pre s fw] by blast
    next
      case (Some p)
      obtain row f1 where rt: "read_tokens fw f = Some (row, f1)" using Some by (cases p) simp
      then have "read_lines fw fh (skip_to_eol f1) = None"
        using Suc.prems by (auto split: option.splits)
      then obtain k j s where "k < fh" "j < fw"
        "token_stream fw k j (skip_to_eol f1) = Some s" "fscanf_d_comma_d s = Failed"
        using Suc.IH by blast
      then have "Suc k < Suc fh" "j < fw" "token_stream fw (Suc k) j f = Some s"
        "fscanf_d_comma_d s = Failed"
        using token_stream_Suc [OF rt, of k j] by simp_all
      then show ?thesis by blast
    qed
  qed
qed

lemma load_read_lines:
  assumes "canvas_inv g"
    and "fscanf_d_d f = Assigned (fw, fh) f'" "0 < fw" "fw \<le> 1000" "0 < fh" "fh \<le> 1000"
    and "read_lines (nat fw) (nat fh) (skip_to_eol f') = Some (ts, f'')"
  shows "load_masterpiece (Some f) True g = Done (overlay (nat fw) (nat fh) (map coerce_token ts) g)"
proof -
  let ?fw = "nat fw" and ?fh = "nat fh"
  let ?W = "canvas_width (g_app g)" and ?H = "canvas_height (g_app g)"
  let ?cells = "map coerce_token ts"
  have fw: "fw = int ?fw" and fh: "fh = int ?fh" using assms(3,5) by simp_all
  have len: "length ?cells = ?fw * ?fh"
    using read_lines_length [OF assms(7)] by (simp add: mult.commute)
  have "read_rows (int ?fw) (int ?fh) 0 (skip_to_eol f') (replicate (?fw * ?fh) None) =
          Assigned (map (Some \<circ> coerce_token) ts) f''"
    by (simp only: read_rows_fresh assms(7) option.case prod.case)
  then have rd: "read_rows fw fh 0 (skip_to_eol f') (replicate (?fw * ?fh) None) =
          Assigned (map Some ?cells) f''"
    unfolding fw [symmetric] fh [symmetric] by simp
  have "copy_rows (int ?fw) (if int ?fw < ?W then int ?fw else ?W)
          (if int ?fh < ?H then int ?fh else ?H) 0 (map Some ?cells) g =
        Done (overlay ?fw ?fh ?cells g)"
    using assms(1,3,5) len by (intro copy_rows_overlay) simp_all
  then have cp: "copy_rows fw (if fw < ?W then fw else ?W) (if fh < ?H then fh else ?H) 0
                   (map Some ?cells) g = Done (overlay ?fw ?fh ?cells g)"
    unfolding fw [symmetric] fh [symmetric] .
  show ?thesis
    using assms(2-6) rd cp
    by (simp add: load_masterpiece_def MAX_CANVAS_WIDTH_def MAX_CANVAS_HEIGHT_def)
qed

text \<open>
  One step of the inner reading loop, for any stream: a token that \<^verbatim>\<open>fscanf\<close> reads is
  stored with its colour and its character code coerced, and the loop goes on.
\<close>

lemma read_row_token:
  assumes "x < file_width" and "fscanf_d_comma_d f = Assigned (c, a) f'"
  shows "read_row file_width y x f temp =
           read_row file_width y (x + 1) f'
             (temp[nat (y * file_width + x) := Some
                \<lparr>ch = (if 0 \<le> a \<and> a \<le> 255 then word_of_int a else 32),
                 color = (if 0 \<le> c \<and> c \<le> 7 then word_of_int c else 7)\<rparr>])"
proof -
  have c8: "c < 8 \<longleftrightarrow> c \<le> 7" by arith
  show ?thesis
    using assms by (subst read_row.simps) (simp add: COLOR_COUNT_def c8)
qed

text \<open>
  C5, as the code has it. A token is a number, a comma and a number, with white space
  allowed before each number; its colour value \<open>c\<close> and its character value \<open>a\<close> are the
  two numbers as \<^verbatim>\<open>%d\<close> converts them to \<^verbatim>\<open>int\<close>, which are the numbers themselves when
  they fit an \<^verbatim>\<open>int\<close>. Wherever the inner loop reads the token, it stores the cell of colour
  \<open>c\<close> if that is in 0..7 and 7 otherwise, and of character \<open>a\<close> if that is in 0..255 and
  32 otherwise, and goes on with the next token. When the header is accepted and all tokens
  of the grid are read, the load returns, and the canvas cell of a token of the copied region
  is that cell. The token \<^verbatim>\<open>9,300\<close> gives the cell of colour 7 and character 32. By
  \<open>token_decomposition\<close> every text that begins with a token is made up as the theorem
  says.
\<close>

theorem out_of_range_values_are_coerced:
  assumes "list_all isspace ws" "number_text n1" "list_all isspace ws2" "number_text n2"
    and "no_digit_ahead rest"
    and "s = ws @ n1 @ CHR '','' # ws2 @ n2 @ rest"
    and "c = converted (number_value n1)" "a = converted (number_value n2)"
    and "cell = \<lparr>ch = (if 0 \<le> a \<and> a \<le> 255 then word_of_int a else 32),
                   color = (if 0 \<le> c \<and> c \<le> 7 then word_of_int c else 7)\<rparr>"
  shows "(fits_int (number_value n1) \<longrightarrow> c = number_value n1) \<and>
         (fits_int (number_value n2) \<longrightarrow> a = number_value n2) \<and>
         (x < file_width \<longrightarrow>
            read_row file_width y x s temp =
              read_row file_width y (x + 1) rest (temp[nat (y * file_width + x) := Some cell])) \<and>
         (canvas_inv g \<and> fscanf_d_d f = Assigned (fw, fh) f' \<and>
          0 < fw \<and> fw \<le> 1000 \<and> 0 < fh \<and> fh \<le> 1000 \<and>
          read_lines (nat fw) (nat fh) (skip_to_eol f') = Some (ts, f'') \<and>
          0 \<le> px \<and> px < min fw (canvas_width (g_app g)) \<and>
          0 \<le> py \<and> py < min fh (canvas_height (g_app g)) \<and>
          token_stream (nat fw) (nat py) (nat px) (skip_to_eol f') = Some s \<longrightarrow>
          (\<exists>g'. load_masterpiece (Some f) True g = Done g' \<and>
                canvas (g_app g') ! nat (py * canvas_width (g_app g) + px) = cell))"
proof (intro conjI impI)
  have tok: "fscanf_d_comma_d s = Assigned (c, a) rest"
    unfolding assms(6,7,8) using assms(1-5) by (rule fscanf_d_comma_d_numbers)
  {
    assume "fits_int (number_value n1)"
    then show "c = number_value n1" unfolding assms(7) by (rule converted_fits)
  }
  {
    assume "fits_int (number_value n2)"
    then show "a = number_value n2" unfolding assms(8) by (rule converted_fits)
  }
  {
    assume "x < file_width"
    then show "read_row file_width y x s temp =
                 read_row file_width y (x + 1) rest (temp[nat (y * file_width + x) := Some cell])"
      unfolding assms(9) using tok by (rule read_row_token)
  }
  {
    assume h: "canvas_inv g \<and> fscanf_d_d f = Assigned (fw, fh) f' \<and>
          0 < fw \<and> fw \<le> 1000 \<and> 0 < fh \<and> fh \<le> 1000 \<and>
          read_lines (nat fw) (nat fh) (skip_to_eol f') = Some (ts, f'') \<and>
          0 \<le> px \<and> px < min fw (canvas_width (g_app g)) \<and>
          0 \<le> py \<and> py < min fh (canvas_height (g_app g)) \<and>
          token_stream (nat fw) (nat py) (nat px) (skip_to_eol f') = Some s"
    let ?fw = "nat fw" and ?fh = "nat fh"
    let ?W = "canvas_width (g_app g)" and ?H = "canvas_height (g_app g)"
    let ?cells = "map coerce_token ts"
    have inv: "canvas_inv g" using h by simp
    have rl: "read_lines ?fw ?fh (skip_to_eol f') = Some (ts, f'')" using h by simp
    have ts: "token_stream ?fw (nat py) (nat px) (skip_to_eol f') = Some s" using h by simp
    have ld: "load_masterpiece (Some f) True g = Done (overlay ?fw ?fh ?cells g)"
      using h by (intro load_read_lines [of g f fw fh f' ts f'']) simp_all
    have nx: "nat px < ?fw" and ny: "nat py < ?fh" using h by simp_all
    have xw: "int (nat px) < ?W" and yh: "int (nat py) < ?H" using h by simp_all
    have t: "ts ! (nat py * ?fw + nat px) = (c, a)"
      using rl ts tok ny nx by (rule token_stream_nth)
    have "Suc (nat py) \<le> ?fh" using ny by (rule Suc_leI)
    then have le: "Suc (nat py) * ?fw \<le> ?fh * ?fw" by (rule mult_le_mono1)
    have "nat py * ?fw + nat px < nat py * ?fw + ?fw" using nx by (rule add_strict_left_mono)
    also have "\<dots> = Suc (nat py) * ?fw" by (simp only: mult_Suc add.commute)
    also have "\<dots> \<le> ?fh * ?fw" by (rule le)
    finally have lt: "nat py * ?fw + nat px < length ts"
      using read_lines_length [OF rl] by simp
    have i1: "nat (py * ?W + px) = nat py * nat ?W + nat px"
      using h by (simp add: nat_add_distrib nat_mult_distrib canvas_inv_def)
    have "canvas (g_app (overlay ?fw ?fh ?cells g)) ! (nat py * nat ?W + nat px) =
           (if int (nat px) < min (int ?fw) ?W \<and> int (nat py) < min (int ?fh) ?H
            then ?cells ! (nat py * ?fw + nat px)
            else canvas (g_app g) ! (nat py * nat ?W + nat px))"
      using inv xw yh by (rule overlay_nth)
    also have "\<dots> = ?cells ! (nat py * ?fw + nat px)"
      using h by simp
    also have "\<dots> = coerce_token (c, a)"
      using lt t by simp
    also have "\<dots> = cell" by (simp add: coerce_token_def assms(9))
    finally show "\<exists>g'. load_masterpiece (Some f) True g = Done g' \<and>
                canvas (g_app g') ! nat (py * canvas_width (g_app g) + px) = cell"
      using ld unfolding i1 by simp
  }
qed

theorem out_of_range_values_are_coerced_witness:
  "fscanf_d_comma_d ''9,300'' = Assigned (9, 300) [] \<and>
   converted (number_value ''9'') = 9 \<and> converted (number_value ''300'') = 300 \<and>
   read_row 3 1 2 ('' 9,300'' @ [newline]) (replicate 6 None) =
     Assigned [None, None, None, None, None, Some \<lparr>ch = 32, color = 7\<rparr>] [newline] \<and>
   canvas (g_app painted_3x2) ! 5 = \<lparr>ch = 42, color = 3\<rparr> \<and>
   (\<exists>g'. load_masterpiece
           (Some (''3 2'' @ [newline] @ ''1,35 2,36 3,37'' @ [newline] @
                  ''4,38 5,39 9,300'' @ [newline])) True painted_3x2 = Done g' \<and>
         canvas (g_app g') ! 5 = \<lparr>ch = 32, color = 7\<rparr>)"
proof -
  let ?f = "''3 2'' @ [newline] @ ''1,35 2,36 3,37'' @ [newline] @ ''4,38 5,39 9,300'' @ [newline]"
  let ?f' = "newline # ''1,35 2,36 3,37'' @ [newline] @ ''4,38 5,39 9,300'' @ [newline]"
  let ?ts = "[(1, 35), (2, 36), (3, 37), (4, 38), (5, 39), (9, 300)] :: (int \<times> int) list"
  let ?c = "converted (number_value ''9'')" and ?a = "converted (number_value ''300'')"
  have tok: "list_all isspace '' ''" "number_text ''9''" "list_all isspace []"
    "number_text ''300''" "no_digit_ahead [newline]"
    by code_simp+
  have fits: "fits_int (number_value ''9'')" "fits_int (number_value ''300'')"
    by code_simp+
  have nv: "number_value ''9'' = 9" "number_value ''300'' = 300" by code_simp+
  have s: "'' 9,300'' @ [newline] = '' '' @ ''9'' @ CHR '','' # [] @ ''300'' @ [newline]"
    by simp
  have ld: "canvas_inv painted_3x2 \<and> fscanf_d_d ?f = Assigned (3, 2) ?f' \<and>
          (0::int) < 3 \<and> (3::int) \<le> 1000 \<and> (0::int) < 2 \<and> (2::int) \<le> 1000 \<and>
          read_lines (nat 3) (nat 2) (skip_to_eol ?f') = Some (?ts, []) \<and>
          (0::int) \<le> 2 \<and> 2 < min 3 (canvas_width (g_app painted_3x2)) \<and>
          (0::int) \<le> 1 \<and> 1 < min 2 (canvas_height (g_app painted_3x2)) \<and>
          token_stream (nat 3) (nat 1) (nat 2) (skip_to_eol ?f') = Some ('' 9,300'' @ [newline])"
    by code_simp
  note inst = out_of_range_values_are_coerced [OF tok s refl refl refl,
      of 2 3 1 "replicate 6 None" painted_3x2 "?f" 3 2 "?f'" "?ts" "[]" 2 1]
  have c: "?c = 9"
    using inst [THEN conjunct1, rule_format, OF fits(1)] unfolding nv .
  have a: "?a = 300"
    using inst [THEN conjunct2, THEN conjunct1, rule_format, OF fits(2)] unfolding nv .
  have cell: "\<lparr>ch = (if 0 \<le> ?a \<and> ?a \<le> 255 then word_of_int ?a else 32),
               color = (if 0 \<le> ?c \<and> ?c \<le> 7 then word_of_int ?c else 7)\<rparr> =
              \<lparr>ch = 32, color = 7\<rparr>"
    unfolding c a by simp
  have w: "canvas_width (g_app painted_3x2) = 3" by code_simp
  have 1: "read_row 3 1 2 ('' 9,300'' @ [newline]) (replicate 6 None) =
           read_row 3 1 (2 + 1) [newline]
             ((replicate 6 None)[nat (1 * 3 + 2) := Some \<lparr>ch = 32, color = 7\<rparr>])"
    using inst [THEN conjunct2, THEN conjunct2, THEN conjunct1] unfolding cell by simp
  have 2: "read_row 3 1 (2 + 1) [newline]
             ((replicate 6 None)[nat (1 * 3 + 2) := Some \<lparr>ch = 32, color = 7\<rparr>]) =
           Assigned [None, None, None, None, None, Some \<lparr>ch = 32, color = 7\<rparr>] [newline]"
    by code_simp
  have 3: "\<exists>g'. load_masterpiece (Some ?f) True painted_3x2 = Done g' \<and>
                canvas (g_app g') ! nat (1 * canvas_width (g_app painted_3x2) + 2) =
                  \<lparr>ch = 32, color = 7\<rparr>"
    using inst [THEN conjunct2, THEN conjunct2, THEN conjunct2, rule_format, OF ld]
    unfolding cell .
  have 4: "nat (1 * canvas_width (g_app painted_3x2) + 2) = 5" unfolding w by simp
  have 5: "fscanf_d_comma_d ''9,300'' = Assigned (9, 300) []" by code_simp
  have 6: "canvas (g_app painted_3x2) ! 5 = \<lparr>ch = 42, color = 3\<rparr>" by code_simp
  show ?thesis
    using 1 2 3 5 6 c a unfolding 4 by simp
qed

text \<open>
  C5, as it is stated, does not hold for numbers that an \<^verbatim>\<open>int\<close> cannot hold. The token
  \<^verbatim>\<open>4294967297,4294967361\<close> has a colour value outside 0..7 and a character value outside
  0..255, and it is stored with colour 1 and character 65: the values that are compared with
  the ranges are the converted ones.
\<close>

theorem overflowing_token_counterexample:
  "load_masterpiece (Some (''1 1'' @ [newline] @ ''4294967297,4294967361'' @ [newline])) True
     edge_canvas =
   Done (edge_canvas\<lparr>g_app := (g_app edge_canvas)\<lparr>canvas :=
     [\<lparr>ch = 65, color = 1\<rparr>, \<lparr>ch = 32, color = 7\<rparr>, \<lparr>ch = 32, color = 7\<rparr>,
      \<lparr>ch = 32, color = 7\<rparr>, \<lparr>ch = 32, color = 7\<rparr>, \<lparr>ch = 32, color = 7\<rparr>]\<rparr>\<rparr>)"
  by code_simp

subsection \<open>Loading any text\<close>

text \<open>The cells of the temporary grid that the reading loops write lie in the block.\<close>

lemma temp_index_in_block:
  assumes "0 \<le> x" "x < file_width" "0 \<le> y" "y < file_height"
  shows "nat (y * file_width + x) < nat file_width * nat file_height"
proof -
  have "y * file_width + x < (y + 1) * file_width" using assms by (simp add: algebra_simps)
  also have "\<dots> \<le> file_height * file_width" using assms by (intro mult_right_mono) auto
  finally have "y * file_width + x < file_width * file_height" by (simp add: mult.commute)
  moreover have "0 \<le> y * file_width + x" using assms by simp
  ultimately have "nat (y * file_width + x) < nat (file_width * file_height)" by simp
  then show ?thesis using assms by (simp add: nat_mult_distrib)
qed

lemma read_row_written:
  assumes "read_row (int fw) (int y) (int x) f temp = Assigned temp' f'"
    and "x \<le> fw" "y * fw + fw \<le> length temp"
  shows "length temp' = length temp \<and>
         (\<forall>i<length temp. temp ! i \<noteq> None \<or> (y * fw + x \<le> i \<and> i < y * fw + fw)
            \<longrightarrow> temp' ! i \<noteq> None)"
  using assms
proof (induction "fw - x" arbitrary: x f temp)
  case 0
  then have "x = fw" by simp
  then show ?case using "0.prems"(1) by (subst (asm) read_row.simps) auto
next
  case (Suc n)
  have x: "x < fw" using Suc.hyps(2) by simp
  have suc: "int x + 1 = int (Suc x)" by simp
  have idx: "nat (int y * int fw + int x) = y * fw + x"
    by (simp add: nat_add_distrib nat_mult_distrib)
  from Suc.prems(1) x obtain c a f1 where
    sc: "fscanf_d_comma_d f = Assigned (c, a) f1"
    by (subst (asm) read_row.simps) (auto split: scanned.splits)
  let ?cell = "\<lparr>ch = (if a \<ge> 0 \<and> a \<le> 255 then word_of_int a else 32),
                color = (if c \<ge> 0 \<and> c < COLOR_COUNT then word_of_int c else 7)\<rparr>"
  let ?temp = "temp[y * fw + x := Some ?cell]"
  have rec: "read_row (int fw) (int y) (int (Suc x)) f1 ?temp = Assigned temp' f'"
    using Suc.prems(1) x
    by (subst (asm) read_row.simps) (simp add: sc idx suc del: of_nat_Suc)
  have ih: "length temp' = length ?temp \<and>
         (\<forall>i<length ?temp. ?temp ! i \<noteq> None \<or> (y * fw + Suc x \<le> i \<and> i < y * fw + fw)
            \<longrightarrow> temp' ! i \<noteq> None)"
    using Suc.hyps(2) x Suc.prems(3) by (intro Suc.hyps(1) [OF _ rec]) simp_all
  show ?case
  proof (intro conjI allI impI)
    show "length temp' = length temp" using ih by simp
  next
    fix i assume i: "i < length temp"
      and d: "temp ! i \<noteq> None \<or> (y * fw + x \<le> i \<and> i < y * fw + fw)"
    have "?temp ! i \<noteq> None \<or> (y * fw + Suc x \<le> i \<and> i < y * fw + fw)"
    proof (cases "i = y * fw + x")
      case True
      then show ?thesis using i by simp
    next
      case False
      then show ?thesis using d by auto
    qed
    then show "temp' ! i \<noteq> None" using ih i by auto
  qed
qed

lemma read_rows_written:
  assumes "read_rows (int fw) (int fh) (int y) f temp = Assigned temp' f'"
    and "y \<le> fh" "fh * fw \<le> length temp"
  shows "length temp' = length temp \<and>
         (\<forall>i<length temp. temp ! i \<noteq> None \<or> (y * fw \<le> i \<and> i < fh * fw)
            \<longrightarrow> temp' ! i \<noteq> None)"
  using assms
proof (induction "fh - y" arbitrary: y f temp)
  case 0
  then have "y = fh" by simp
  then show ?case using "0.prems"(1) by (subst (asm) read_rows.simps) auto
next
  case (Suc n)
  have y: "y < fh" using Suc.hyps(2) by simp
  then have "Suc y * fw \<le> fh * fw" by (intro mult_le_mono1) simp
  then have le: "y * fw + fw \<le> fh * fw" by simp
  have suc: "int y + 1 = int (Suc y)" by simp
  from Suc.prems(1) y obtain temp1 f1 where
    row: "read_row (int fw) (int y) (int 0) f temp = Assigned temp1 f1"
    by (subst (asm) read_rows.simps) (auto split: scanned.splits)
  have rec: "read_rows (int fw) (int fh) (int (Suc y)) (skip_to_eol f1) temp1 = Assigned temp' f'"
    using Suc.prems(1) y row
    by (subst (asm) read_rows.simps) (simp add: suc del: of_nat_Suc)
  have r: "length temp1 = length temp \<and>
         (\<forall>i<length temp. temp ! i \<noteq> None \<or> (y * fw + 0 \<le> i \<and> i < y * fw + fw)
            \<longrightarrow> temp1 ! i \<noteq> None)"
    using le Suc.prems(3) by (intro read_row_written [OF row]) simp_all
  have ih: "length temp' = length temp1 \<and>
         (\<forall>i<length temp1. temp1 ! i \<noteq> None \<or> (Suc y * fw \<le> i \<and> i < fh * fw)
            \<longrightarrow> temp' ! i \<noteq> None)"
    using Suc.hyps(2) y Suc.prems(3) r by (intro Suc.hyps(1) [OF _ rec]) simp_all
  show ?case
  proof (intro conjI allI impI)
    show "length temp' = length temp" using ih r by simp
  next
    fix i assume i: "i < length temp"
      and d: "temp ! i \<noteq> None \<or> (y * fw \<le> i \<and> i < fh * fw)"
    have "temp1 ! i \<noteq> None \<or> (Suc y * fw \<le> i \<and> i < fh * fw)"
    proof (cases "i < y * fw + fw")
      case True
      then show ?thesis using d r i by auto
    next
      case False
      then show ?thesis using d r i by auto
    qed
    then show "temp' ! i \<noteq> None" using ih r i by auto
  qed
qed

text \<open>
  C3. When the header is accepted and all rows are read, the load returns, with a canvas
  of the same size in which the cell (x,y) is the cell read for column \<open>x\<close> of row \<open>y\<close>
  of the file if \<open>x < min fw width\<close> and \<open>y < min fh height\<close>, and the cell it was
  before otherwise. The load returning means that no cell of the temporary grid was read
  outside the block or before it was written; the canvas is written through \<open>find_spot\<close>
  only, whose cells lie in the buffer (\<open>find_spot_in_buffer\<close>).
\<close>

theorem load_overlays_top_left_region:
  assumes "canvas_inv g"
    and "fscanf_d_d f = Assigned (fw, fh) f'" "0 < fw" "fw \<le> 1000" "0 < fh" "fh \<le> 1000"
    and "read_rows fw fh 0 (skip_to_eol f') (replicate (nat fw * nat fh) None) = Assigned temp f''"
  shows "\<exists>cs'. load_masterpiece (Some f) True g = Done (g\<lparr>g_app := (g_app g)\<lparr>canvas := cs'\<rparr>\<rparr>) \<and>
           length cs' = length (canvas (g_app g)) \<and>
           (\<forall>x y. 0 \<le> x \<and> x < canvas_width (g_app g) \<and> 0 \<le> y \<and> y < canvas_height (g_app g) \<longrightarrow>
              (if x < min fw (canvas_width (g_app g)) \<and> y < min fh (canvas_height (g_app g))
               then temp ! nat (y * fw + x) = Some (cs' ! nat (y * canvas_width (g_app g) + x))
               else cs' ! nat (y * canvas_width (g_app g) + x) =
                    canvas (g_app g) ! nat (y * canvas_width (g_app g) + x)))"
proof -
  let ?fw = "nat fw" and ?fh = "nat fh"
  let ?W = "canvas_width (g_app g)" and ?H = "canvas_height (g_app g)"
  let ?cells = "map the temp"
  have fw: "fw = int ?fw" and fh: "fh = int ?fh" using assms(3,5) by simp_all
  have rd: "read_rows (int ?fw) (int ?fh) (int 0) (skip_to_eol f')
              (replicate (?fw * ?fh) None) = Assigned temp f''"
    using assms(7) fw fh by simp
  have len: "length temp = ?fw * ?fh" and def: "\<forall>i<?fw * ?fh. temp ! i \<noteq> None"
    using read_rows_written [OF rd] by (simp_all add: mult.commute)
  have temp: "temp = map Some ?cells"
    using len def by (intro nth_equalityI) auto
  have cp: "copy_rows fw (if fw < ?W then fw else ?W) (if fh < ?H then fh else ?H) 0 temp g =
              Done (overlay ?fw ?fh ?cells g)"
  proof -
    have "copy_rows (int ?fw) (if int ?fw < ?W then int ?fw else ?W)
            (if int ?fh < ?H then int ?fh else ?H) 0 (map Some ?cells) g =
          Done (overlay ?fw ?fh ?cells g)"
      using assms(1,3,5) len by (intro copy_rows_overlay) simp_all
    then show ?thesis
      unfolding fw [symmetric] fh [symmetric] temp [symmetric] .
  qed
  have ld: "load_masterpiece (Some f) True g = Done (overlay ?fw ?fh ?cells g)"
    using assms(2-7) cp
    by (simp add: load_masterpiece_def MAX_CANVAS_WIDTH_def MAX_CANVAS_HEIGHT_def)
  have pt: "if x < min fw ?W \<and> y < min fh ?H
            then temp ! nat (y * fw + x) =
                   Some (canvas (g_app (overlay ?fw ?fh ?cells g)) ! nat (y * ?W + x))
            else canvas (g_app (overlay ?fw ?fh ?cells g)) ! nat (y * ?W + x) =
                   canvas (g_app g) ! nat (y * ?W + x)"
    if xy: "0 \<le> x" "x < ?W" "0 \<le> y" "y < ?H" for x y
  proof -
    have i1: "nat (y * ?W + x) = nat y * nat ?W + nat x"
      using xy by (simp add: nat_add_distrib nat_mult_distrib)
    have i2: "nat (y * fw + x) = nat y * ?fw + nat x"
      using xy assms(3) by (simp add: nat_add_distrib nat_mult_distrib)
    have nth: "canvas (g_app (overlay ?fw ?fh ?cells g)) ! (nat y * nat ?W + nat x) =
           (if int (nat x) < min (int ?fw) ?W \<and> int (nat y) < min (int ?fh) ?H
            then ?cells ! (nat y * ?fw + nat x)
            else canvas (g_app g) ! (nat y * nat ?W + nat x))"
      using xy assms(1) by (intro overlay_nth) simp_all
    show ?thesis
    proof (cases "x < min fw ?W \<and> y < min fh ?H")
      case True
      then have nx: "nat x < ?fw" and ny: "nat y < ?fh" using xy by simp_all
      have "Suc (nat y) \<le> ?fh" using ny by (rule Suc_leI)
      then have le: "Suc (nat y) * ?fw \<le> ?fh * ?fw" by (rule mult_le_mono1)
      have "nat y * ?fw + nat x < nat y * ?fw + ?fw" using nx by (rule add_strict_left_mono)
      also have "\<dots> = Suc (nat y) * ?fw" by (simp only: mult_Suc add.commute)
      also have "\<dots> \<le> ?fh * ?fw" by (rule le)
      also have "\<dots> = ?fw * ?fh" by (rule mult.commute)
      finally have lt: "nat y * ?fw + nat x < ?fw * ?fh" .
      then have "temp ! (nat y * ?fw + nat x) = Some (?cells ! (nat y * ?fw + nat x))"
        using def len by auto
      then show ?thesis using True nth xy assms(3,5) unfolding i1 i2 by simp
    next
      case False
      then show ?thesis using nth xy assms(3,5) unfolding i1 i2 by auto
    qed
  qed
  show ?thesis
    using ld pt
    by (intro exI [of _ "canvas (g_app (overlay ?fw ?fh ?cells g))"])
      (simp add: overlay_length, simp add: overlay_def Let_def with_canvas_def)
qed

theorem load_overlays_top_left_region_witness:
  "canvas_inv edge_canvas \<and>
   (\<exists>cs'. load_masterpiece (Some (''4 1'' @ [newline] @ ''1,35 2,36 3,37 4,38'' @ [newline])) True
            edge_canvas = Done (edge_canvas\<lparr>g_app := (g_app edge_canvas)\<lparr>canvas := cs'\<rparr>\<rparr>) \<and>
          length cs' = 6 \<and>
          cs' ! 2 = \<lparr>ch = 37, color = 3\<rparr> \<and> cs' ! 3 = \<lparr>ch = 32, color = 7\<rparr>)"
proof -
  let ?f = "''4 1'' @ [newline] @ ''1,35 2,36 3,37 4,38'' @ [newline]"
  let ?temp = "[Some \<lparr>ch = 35, color = 1\<rparr>, Some \<lparr>ch = 36, color = 2\<rparr>,
                Some \<lparr>ch = 37, color = 3\<rparr>, Some \<lparr>ch = 38, color = 4\<rparr>]"
  have 1: "canvas_inv edge_canvas" by code_simp
  have 2: "fscanf_d_d ?f = Assigned (4, 1) (newline # ''1,35 2,36 3,37 4,38'' @ [newline])"
    by code_simp
  have 3: "read_rows 4 1 0 (skip_to_eol (newline # ''1,35 2,36 3,37 4,38'' @ [newline]))
             (replicate (nat 4 * nat 1) None) = Assigned ?temp []"
    by code_simp
  obtain cs' where
    ld: "load_masterpiece (Some ?f) True edge_canvas =
           Done (edge_canvas\<lparr>g_app := (g_app edge_canvas)\<lparr>canvas := cs'\<rparr>\<rparr>)"
    and len: "length cs' = length (canvas (g_app edge_canvas))"
    and pt: "\<And>x y. 0 \<le> x \<and> x < canvas_width (g_app edge_canvas) \<and>
                   0 \<le> y \<and> y < canvas_height (g_app edge_canvas) \<Longrightarrow>
              (if x < min 4 (canvas_width (g_app edge_canvas)) \<and>
                  y < min 1 (canvas_height (g_app edge_canvas))
               then ?temp ! nat (y * 4 + x) =
                      Some (cs' ! nat (y * canvas_width (g_app edge_canvas) + x))
               else cs' ! nat (y * canvas_width (g_app edge_canvas) + x) =
                    canvas (g_app edge_canvas) ! nat (y * canvas_width (g_app edge_canvas) + x))"
    using load_overlays_top_left_region [OF 1 2 _ _ _ _ 3] by auto
  have "cs' ! 2 = \<lparr>ch = 37, color = 3\<rparr>"
    using pt [of 2 0] by (simp add: edge_canvas_def)
  moreover have "cs' ! 3 = \<lparr>ch = 32, color = 7\<rparr>"
    using pt [of 0 1] by (simp add: edge_canvas_def)
  moreover have "length cs' = 6" using len by (simp add: edge_canvas_def)
  ultimately show ?thesis using 1 ld by blast
qed

text \<open>
  C4, as the code has it. When the text does not begin with two numbers (white space, line
  ends included, is allowed before each), or when it does and the first or the second
  number, as \<^verbatim>\<open>%d\<close> converts it to \<^verbatim>\<open>int\<close> (the number itself when it fits an \<^verbatim>\<open>int\<close>,
  \<open>converted_fits\<close>), is at most 0 or greater than 1000, the load returns the state as it
  was. By \<open>header_decomposition\<close> every text that begins with a header is made up as the
  second case says.
\<close>

theorem bad_header_aborts:
  assumes "\<not> starts_header f \<or>
           (f = ws1 @ n1 @ ws2 @ n2 @ rest \<and>
            list_all isspace ws1 \<and> number_text n1 \<and> list_all isspace ws2 \<and> number_text n2 \<and>
            no_digit_ahead (ws2 @ n2 @ rest) \<and> no_digit_ahead rest \<and>
            (converted (number_value n1) \<le> 0 \<or> converted (number_value n2) \<le> 0 \<or>
             1000 < converted (number_value n1) \<or> 1000 < converted (number_value n2)))"
  shows "load_masterpiece (Some f) malloc_ok g = Done g"
  using assms
proof
  assume "\<not> starts_header f"
  then have "fscanf_d_d f = Failed" by (simp add: fscanf_d_d_Failed_iff)
  then show ?thesis by (simp add: load_masterpiece_def)
next
  assume h: "f = ws1 @ n1 @ ws2 @ n2 @ rest \<and>
            list_all isspace ws1 \<and> number_text n1 \<and> list_all isspace ws2 \<and> number_text n2 \<and>
            no_digit_ahead (ws2 @ n2 @ rest) \<and> no_digit_ahead rest \<and>
            (converted (number_value n1) \<le> 0 \<or> converted (number_value n2) \<le> 0 \<or>
             1000 < converted (number_value n1) \<or> 1000 < converted (number_value n2))"
  then have "fscanf_d_d f =
               Assigned (converted (number_value n1), converted (number_value n2)) rest"
    using fscanf_d_d_numbers [of ws1 n1 ws2 n2 rest] by simp
  then show ?thesis
    using h by (auto simp: load_masterpiece_def MAX_CANVAS_WIDTH_def MAX_CANVAS_HEIGHT_def)
qed

theorem bad_header_aborts_witness:
  "load_masterpiece (Some []) True painted_3x2 = Done painted_3x2 \<and>
   load_masterpiece (Some (''3 x'' @ [newline] @ ''5,65 5,65 5,65'' @ [newline])) True painted_3x2 =
     Done painted_3x2 \<and>
   load_masterpiece (Some (''0 1'' @ [newline] @ ''5,65'' @ [newline])) True painted_3x2 =
     Done painted_3x2 \<and>
   load_masterpiece (Some (''1001 1'' @ newline # concat (replicate 1001 ''5,65 '') @ [newline]))
     True painted_3x2 = Done painted_3x2 \<and>
   load_masterpiece (Some (''1 1001'' @ newline # concat (replicate 1001 (''5,65'' @ [newline]))))
     True painted_3x2 = Done painted_3x2"
proof -
  have a: "\<not> starts_header []" by code_simp
  have b: "\<not> starts_header (''3 x'' @ [newline] @ ''5,65 5,65 5,65'' @ [newline])" by code_simp
  have num: "list_all isspace []" "list_all isspace '' ''" "number_text ''0''" "number_text ''1''"
    "number_text ''1001''"
    by code_simp+
  have val: "converted (number_value ''0'') \<le> 0" "1000 < converted (number_value ''1001'')"
    by code_simp+
  have nd: "no_digit_ahead ('' '' @ n @ r)" "no_digit_ahead (newline # r)" for n r
    by (simp_all add: no_digit_ahead_def isdigit_def)
  have c: "''0 1'' @ [newline] @ ''5,65'' @ [newline] =
             [] @ ''0'' @ '' '' @ ''1'' @ (newline # ''5,65'' @ [newline])"
    by simp
  have d: "''1001 1'' @ newline # concat (replicate 1001 ''5,65 '') @ [newline] =
             [] @ ''1001'' @ '' '' @ ''1'' @ (newline # concat (replicate 1001 ''5,65 '') @ [newline])"
    by simp
  have e: "''1 1001'' @ newline # concat (replicate 1001 (''5,65'' @ [newline])) =
             [] @ ''1'' @ '' '' @ ''1001'' @ (newline # concat (replicate 1001 (''5,65'' @ [newline])))"
    by simp
  have "load_masterpiece (Some []) True painted_3x2 = Done painted_3x2"
    by (rule bad_header_aborts [OF disjI1 [OF a]])
  moreover have "load_masterpiece (Some (''3 x'' @ [newline] @ ''5,65 5,65 5,65'' @ [newline]))
      True painted_3x2 = Done painted_3x2"
    by (rule bad_header_aborts [OF disjI1 [OF b]])
  moreover have "load_masterpiece (Some (''0 1'' @ [newline] @ ''5,65'' @ [newline]))
      True painted_3x2 = Done painted_3x2"
    by (rule bad_header_aborts [of _ "[]" "''0''" "'' ''" "''1''" "newline # ''5,65'' @ [newline]"],
        rule disjI2, intro conjI, rule c) (simp_all only: num nd, simp_all add: val)
  moreover have "load_masterpiece
      (Some (''1001 1'' @ newline # concat (replicate 1001 ''5,65 '') @ [newline]))
      True painted_3x2 = Done painted_3x2"
    by (rule bad_header_aborts [of _ "[]" "''1001''" "'' ''" "''1''"
          "newline # concat (replicate 1001 ''5,65 '') @ [newline]"],
        rule disjI2, intro conjI, rule d) (simp_all only: num nd, simp_all add: val)
  moreover have "load_masterpiece
      (Some (''1 1001'' @ newline # concat (replicate 1001 (''5,65'' @ [newline]))))
      True painted_3x2 = Done painted_3x2"
    by (rule bad_header_aborts [of _ "[]" "''1''" "'' ''" "''1001''"
          "newline # concat (replicate 1001 (''5,65'' @ [newline]))"],
        rule disjI2, intro conjI, rule e) (simp_all only: num nd, simp_all add: val)
  ultimately show ?thesis by (intro conjI)
qed

text \<open>
  C4, as it is stated, does not hold. In the first text below the first line is not a header,
  it holds one number; the load takes the second number from the next line (\<^verbatim>\<open>%d\<close> skips
  the line end as it skips any white space), drops the rest of that line, and changes the
  canvas. In the second text the first line declares the width 4294967297, which exceeds
  1000; the width that is stored and checked is 1, and the load changes the canvas.
\<close>

theorem accepted_header_counterexample:
  "load_masterpiece (Some (''1'' @ [newline] @ ''1'' @ [newline] @ ''5,65'' @ [newline])) True
     edge_canvas =
   Done (edge_canvas\<lparr>g_app := (g_app edge_canvas)\<lparr>canvas :=
     [\<lparr>ch = 65, color = 5\<rparr>, \<lparr>ch = 32, color = 7\<rparr>, \<lparr>ch = 32, color = 7\<rparr>,
      \<lparr>ch = 32, color = 7\<rparr>, \<lparr>ch = 32, color = 7\<rparr>, \<lparr>ch = 32, color = 7\<rparr>]\<rparr>\<rparr>) \<and>
   load_masterpiece (Some (''1'' @ [newline] @ ''1'' @ [newline] @ ''5,65'' @ [newline])) True
     edge_canvas \<noteq> Done edge_canvas \<and>
   load_masterpiece (Some (''4294967297 1'' @ [newline] @ ''5,65'' @ [newline])) True
     edge_canvas \<noteq> Done edge_canvas"
  by code_simp

subsection \<open>A read that fails\<close>

text \<open>For any text: when the reading loops fail, the load returns the state as it was.\<close>

lemma failed_read_keeps_state:
  assumes "fscanf_d_d f = Assigned (fw, fh) f'"
    and "read_rows fw fh 0 (skip_to_eol f') (replicate (nat fw * nat fh) None) = Failed"
  shows "load_masterpiece (Some f) malloc_ok g = Done g"
  using assms by (simp add: load_masterpiece_def)

text \<open>
  C1, as the code has it. The header is accepted, and at column \<open>j\<close> of row \<open>k\<close> of the
  declared grid the text that is left (after \<open>k\<close> rows of as many tokens as the width, the
  rest of the line dropped after each row, and after \<open>j\<close> further tokens) does not begin
  with a token: the input ends, or what comes after the white space is not a number, a comma
  and a number. Then the load returns the state as it was. By \<open>read_lines_None_position\<close>
  and \<open>read_rows_fresh\<close> every read that fails has such a place.
\<close>

theorem failed_token_aborts_load:
  assumes "fscanf_d_d f = Assigned (fw, fh) f'"
    and "k < nat fh" "j < nat fw"
    and "token_stream (nat fw) k j (skip_to_eol f') = Some s"
    and "\<not> starts_token s"
  shows "load_masterpiece (Some f) malloc_ok g = Done g"
proof -
  have pos: "0 < fw" "0 < fh" using assms(2,3) by simp_all
  have "fscanf_d_comma_d s = Failed"
    using assms(5) by (simp add: fscanf_d_comma_d_Failed_iff)
  then have "read_lines (nat fw) (nat fh) (skip_to_eol f') = None"
    using assms(2-4) by (intro token_stream_None [of _ k j])
  then have "read_rows (int (nat fw)) (int (nat fh)) 0 (skip_to_eol f')
               (replicate (nat fw * nat fh) None) = Failed"
    by (simp only: read_rows_fresh option.case)
  then have "read_rows fw fh 0 (skip_to_eol f') (replicate (nat fw * nat fh) None) = Failed"
    using pos by simp
  then show ?thesis
    using assms(1) by (simp add: load_masterpiece_def)
qed

theorem failed_token_aborts_load_witness:
  "load_masterpiece (Some (''2 2'' @ [newline] @ ''1,35 2,36'' @ [newline] @ ''3,37'' @ [newline]))
     True edge_canvas = Done edge_canvas \<and>
   load_masterpiece (Some (''1 1'' @ [newline] @ ''4;38'' @ [newline])) True edge_canvas =
     Done edge_canvas \<and>
   load_masterpiece
     (Some (''2 2'' @ [newline] @ ''1,35 2,36'' @ [newline] @ ''3;37 4,38'' @ [newline]))
     True edge_canvas = Done edge_canvas"
proof -
  let ?f1 = "''2 2'' @ [newline] @ ''1,35 2,36'' @ [newline] @ ''3,37'' @ [newline]"
  let ?f2 = "''1 1'' @ [newline] @ ''4;38'' @ [newline]"
  let ?f3 = "''2 2'' @ [newline] @ ''1,35 2,36'' @ [newline] @ ''3;37 4,38'' @ [newline]"
  have a1: "fscanf_d_d ?f1 = Assigned (2, 2) (newline # ''1,35 2,36'' @ [newline] @ ''3,37'' @ [newline])"
    by code_simp
  have a2: "token_stream (nat 2) 1 1
              (skip_to_eol (newline # ''1,35 2,36'' @ [newline] @ ''3,37'' @ [newline])) =
            Some [newline]"
    by code_simp
  have a3: "\<not> starts_token [newline]" by code_simp
  have b1: "fscanf_d_d ?f2 = Assigned (1, 1) (newline # ''4;38'' @ [newline])" by code_simp
  have b2: "token_stream (nat 1) 0 0 (skip_to_eol (newline # ''4;38'' @ [newline])) =
            Some (''4;38'' @ [newline])"
    by code_simp
  have b3: "\<not> starts_token (''4;38'' @ [newline])" by code_simp
  have c1: "fscanf_d_d ?f3 =
              Assigned (2, 2) (newline # ''1,35 2,36'' @ [newline] @ ''3;37 4,38'' @ [newline])"
    by code_simp
  have c2: "token_stream (nat 2) 1 0
              (skip_to_eol (newline # ''1,35 2,36'' @ [newline] @ ''3;37 4,38'' @ [newline])) =
            Some (''3;37 4,38'' @ [newline])"
    by code_simp
  have c3: "\<not> starts_token (''3;37 4,38'' @ [newline])" by code_simp
  have "load_masterpiece (Some ?f1) True edge_canvas = Done edge_canvas"
    by (rule failed_token_aborts_load [OF a1 _ _ a2 a3]) simp_all
  moreover have "load_masterpiece (Some ?f2) True edge_canvas = Done edge_canvas"
    by (rule failed_token_aborts_load [OF b1 _ _ b2 b3]) simp_all
  moreover have "load_masterpiece (Some ?f3) True edge_canvas = Done edge_canvas"
    by (rule failed_token_aborts_load [OF c1 _ _ c2 c3]) simp_all
  ultimately show ?thesis by simp
qed

text \<open>
  C1, as it is stated, does not hold. In the first text below the first line of the grid
  has one token where the width is two, and the load goes through: \<^verbatim>\<open>%d\<close> skips the line
  end as it skips any white space, the second token of the first row is read from the next
  line, and the rest of that line is dropped. In the second text the line holds something
  that is no token after its first token, and the load goes through as well.
\<close>

theorem short_row_is_loaded_counterexample:
  "load_masterpiece
     (Some (''2 2'' @ [newline] @ ''1,35'' @ [newline] @ ''2,36 3,37'' @ [newline] @
            ''4,38 5,39'' @ [newline]))
     True edge_canvas =
   Done (edge_canvas\<lparr>g_app := (g_app edge_canvas)\<lparr>canvas :=
     [\<lparr>ch = 35, color = 1\<rparr>, \<lparr>ch = 36, color = 2\<rparr>, \<lparr>ch = 32, color = 7\<rparr>,
      \<lparr>ch = 38, color = 4\<rparr>, \<lparr>ch = 39, color = 5\<rparr>, \<lparr>ch = 32, color = 7\<rparr>]\<rparr>\<rparr>) \<and>
   load_masterpiece
     (Some (''2 2'' @ [newline] @ ''1,35'' @ [newline] @ ''2,36 3,37'' @ [newline] @
            ''4,38 5,39'' @ [newline]))
     True edge_canvas \<noteq> Done edge_canvas \<and>
   load_masterpiece (Some (''1 1'' @ [newline] @ ''1,35 zzz'' @ [newline])) True edge_canvas \<noteq>
     Done edge_canvas"
  by code_simp

end
